theory Spec2Isabelle
  imports Main
begin

section \<open>Strings and bytes\<close>

text \<open>
  A Go \<^verbatim>\<open>string\<close> is a sequence of bytes; \<^typ>\<open>string\<close> (a list of 8-bit
  \<^typ>\<open>char\<close>) models it byte for byte.  Every character the parser tests for is ASCII,
  and an ASCII byte never occurs inside a multi-byte UTF-8 sequence, so matching on bytes
  finds the same positions as Go's matching on runes.
\<close>

definition ch_tab :: char where "ch_tab = CHR 0x09"
definition ch_nl :: char where "ch_nl = CHR 0x0A"
definition ch_vt :: char where "ch_vt = CHR 0x0B"
definition ch_ff :: char where "ch_ff = CHR 0x0C"
definition ch_cr :: char where "ch_cr = CHR 0x0D"
definition ch_sp :: char where "ch_sp = CHR 0x20"
definition ch_dquote :: char where "ch_dquote = CHR 0x22"
definition ch_squote :: char where "ch_squote = CHR 0x27"
definition ch_backtick :: char where "ch_backtick = CHR 0x60"

text \<open>Go's slice expression \<^verbatim>\<open>s[i:j]\<close>, for \<open>i \<le> j \<le> len(s)\<close>.\<close>

definition slice :: "string \<Rightarrow> nat \<Rightarrow> nat \<Rightarrow> string" where
  "slice s i j = take (j - i) (drop i s)"

text \<open>\<^verbatim>\<open>strings.Split(s, sep)\<close> and \<^verbatim>\<open>strings.SplitSeq(s, sep)\<close> for a one-byte separator:
  every piece between separators, empty pieces included; the empty string gives one empty
  piece.\<close>

fun split_on :: "char \<Rightarrow> string \<Rightarrow> string list" where
  "split_on sep [] = [[]]"
| "split_on sep (c # cs) =
     (if c = sep then [] # split_on sep cs
      else (case split_on sep cs of
              [] \<Rightarrow> [[c]]
            | l # ls \<Rightarrow> (c # l) # ls))"

text \<open>\<^verbatim>\<open>strings.Join(elems, sep)\<close>.\<close>

fun join :: "string \<Rightarrow> string list \<Rightarrow> string" where
  "join sep [] = []"
| "join sep [x] = x"
| "join sep (x # y # ys) = x @ sep @ join sep (y # ys)"

text \<open>\<^verbatim>\<open>strings.TrimSuffix(s, suffix)\<close>.\<close>

definition TrimSuffix :: "string \<Rightarrow> string \<Rightarrow> string" where
  "TrimSuffix s suffix =
     (if length suffix \<le> length s \<and> drop (length s - length suffix) s = suffix
      then take (length s - length suffix) s else s)"

subsection \<open>\<^verbatim>\<open>strings.TrimSpace\<close>\<close>

text \<open>
  \<^verbatim>\<open>strings.TrimSpace\<close> removes leading and trailing white space "as defined by Unicode"
  (\<^verbatim>\<open>unicode.IsSpace\<close>): the six ASCII bytes tab, newline, vertical tab, form feed, carriage
  return and space, and the runes U+0085, U+00A0, U+1680, U+2000 to U+200A, U+2028, U+2029,
  U+202F, U+205F and U+3000, which arrive UTF-8 encoded in two or three bytes.
  \<open>leading_space s\<close> is the width in bytes of the white-space rune \<open>s\<close> starts with, and 0
  when \<open>s\<close> starts with none; \<open>trailing_space\<close> is the same at the end of \<open>s\<close>.
\<close>

definition ascii_space :: "char \<Rightarrow> bool" where
  "ascii_space c \<longleftrightarrow>
     c = ch_tab \<or> c = ch_nl \<or> c = ch_vt \<or> c = ch_ff \<or> c = ch_cr \<or> c = ch_sp"

definition space_tail3 :: "char \<Rightarrow> char \<Rightarrow> char \<Rightarrow> bool" where
  "space_tail3 a b c \<longleftrightarrow>
     (a = CHR 0xE1 \<and> b = CHR 0x9A \<and> c = CHR 0x80) \<or>
     (a = CHR 0xE2 \<and> b = CHR 0x80 \<and>
        (c \<in> set [CHR 0x80, CHR 0x81, CHR 0x82, CHR 0x83, CHR 0x84, CHR 0x85, CHR 0x86,
                   CHR 0x87, CHR 0x88, CHR 0x89, CHR 0x8A, CHR 0xA8, CHR 0xA9, CHR 0xAF])) \<or>
     (a = CHR 0xE2 \<and> b = CHR 0x81 \<and> c = CHR 0x9F) \<or>
     (a = CHR 0xE3 \<and> b = CHR 0x80 \<and> c = CHR 0x80)"

definition space_tail2 :: "char \<Rightarrow> char \<Rightarrow> bool" where
  "space_tail2 a b \<longleftrightarrow> a = CHR 0xC2 \<and> (b = CHR 0x85 \<or> b = CHR 0xA0)"

fun leading_space :: "string \<Rightarrow> nat" where
  "leading_space [] = 0"
| "leading_space [a] = (if ascii_space a then 1 else 0)"
| "leading_space [a, b] = (if ascii_space a then 1 else if space_tail2 a b then 2 else 0)"
| "leading_space (a # b # c # s) =
     (if ascii_space a then 1 else if space_tail2 a b then 2
      else if space_tail3 a b c then 3 else 0)"

definition trailing_space :: "string \<Rightarrow> nat" where
  "trailing_space s =
     (case rev s of
        [] \<Rightarrow> 0
      | [a] \<Rightarrow> (if ascii_space a then 1 else 0)
      | [b, a] \<Rightarrow> (if ascii_space b then 1 else if space_tail2 a b then 2 else 0)
      | c # b # a # _ \<Rightarrow>
          (if ascii_space c then 1 else if space_tail2 b c then 2
           else if space_tail3 a b c then 3 else 0))"

lemma leading_space_le: "leading_space s \<le> length s"
  by (induction s rule: leading_space.induct) auto

lemma trailing_space_le: "trailing_space s \<le> length s"
proof -
  have "trailing_space s \<le> length (rev s)"
    unfolding trailing_space_def by (auto split: list.splits)
  then show ?thesis by simp
qed

function TrimLeft :: "string \<Rightarrow> string" where
  "TrimLeft s = (if leading_space s = 0 then s else TrimLeft (drop (leading_space s) s))"
  by pat_completeness auto
termination
proof (relation "measure length")
  show "wf (measure length)" by simp
next
  fix s :: string
  assume "leading_space s \<noteq> 0"
  moreover have "leading_space s \<le> length s" by (rule leading_space_le)
  ultimately show "(drop (leading_space s) s, s) \<in> measure length" by simp
qed

function TrimRight :: "string \<Rightarrow> string" where
  "TrimRight s =
     (if trailing_space s = 0 then s else TrimRight (take (length s - trailing_space s) s))"
  by pat_completeness auto
termination
proof (relation "measure length")
  show "wf (measure length)" by simp
next
  fix s :: string
  assume "trailing_space s \<noteq> 0"
  moreover have "trailing_space s \<le> length s" by (rule trailing_space_le)
  ultimately show "(take (length s - trailing_space s) s, s) \<in> measure length" by simp
qed

declare TrimLeft.simps [simp del] TrimRight.simps [simp del]

definition TrimSpace :: "string \<Rightarrow> string" where
  "TrimSpace s = TrimRight (TrimLeft s)"

section \<open>Regular expressions of Go's \<^verbatim>\<open>regexp\<close> package\<close>

text \<open>
  Go's \<^verbatim>\<open>regexp\<close> returns the match a backtracking search finds first: a greedy
  repetition tries the longest run first and gives bytes back one at a time, a lazy one tries
  the shortest first.  Each construct the two patterns of \<^verbatim>\<open>parse.go\<close> use is a function
  that takes the matcher of the rest of the pattern (the continuation \<open>k\<close>) and the text
  still to read, and returns what the first successful path returns.
\<close>

text \<open>The regexp class \<^verbatim>\<open>\s\<close> is \<^verbatim>\<open>[\t\n\f\r ]\<close>: it has no vertical tab and no
  non-ASCII space.\<close>

definition re_space :: "char \<Rightarrow> bool" where
  "re_space c \<longleftrightarrow> c = ch_tab \<or> c = ch_nl \<or> c = ch_ff \<or> c = ch_cr \<or> c = ch_sp"

text \<open>\<^verbatim>\<open>[^\s;]\<close>.\<close>

definition re_table_char :: "char \<Rightarrow> bool" where
  "re_table_char c \<longleftrightarrow> \<not> re_space c \<and> c \<noteq> CHR '';''"

text \<open>\<^verbatim>\<open>.\<close> under the flag \<^verbatim>\<open>s\<close> (any character) and without it (any but newline).\<close>

definition re_any :: "char \<Rightarrow> bool" where
  "re_any c \<longleftrightarrow> True"

definition re_dot :: "char \<Rightarrow> bool" where
  "re_dot c \<longleftrightarrow> c \<noteq> ch_nl"

text \<open>A literal string.\<close>

fun lit :: "string \<Rightarrow> (string \<Rightarrow> 'r option) \<Rightarrow> string \<Rightarrow> 'r option" where
  "lit [] k s = k s"
| "lit (p # ps) k [] = None"
| "lit (p # ps) k (c # cs) = (if c = p then lit ps k cs else None)"

text \<open>Ordered choice between literal strings.\<close>

fun alt_lits :: "string list \<Rightarrow> (string \<Rightarrow> 'r option) \<Rightarrow> string \<Rightarrow> 'r option" where
  "alt_lits [] k s = None"
| "alt_lits (w # ws) k s = (case lit w k s of Some r \<Rightarrow> Some r | None \<Rightarrow> alt_lits ws k s)"

text \<open>
  Under the flag \<^verbatim>\<open>i\<close> a letter of the pattern matches every rune of its case-folding
  orbit (\<^verbatim>\<open>unicode.SimpleFold\<close>): the lower-case and the upper-case letter, and for
  \<^verbatim>\<open>s\<close> also U+017F (long s, bytes C5 BF), for \<^verbatim>\<open>k\<close> also U+212A (Kelvin sign, bytes
  E2 84 AA).
\<close>

definition to_upper :: "char \<Rightarrow> char" where
  "to_upper c =
     (case map_of (zip ''abcdefghijklmnopqrstuvwxyz'' ''ABCDEFGHIJKLMNOPQRSTUVWXYZ'') c of
        Some u \<Rightarrow> u
      | None \<Rightarrow> c)"

definition fold_orbit :: "char \<Rightarrow> string list" where
  "fold_orbit c =
     [[c], [to_upper c]] @
     (if c = CHR ''s'' then [[CHR 0xC5, CHR 0xBF]]
      else if c = CHR ''k'' then [[CHR 0xE2, CHR 0x84, CHR 0xAA]]
      else [])"

fun lit_ci :: "string \<Rightarrow> (string \<Rightarrow> 'r option) \<Rightarrow> string \<Rightarrow> 'r option" where
  "lit_ci [] k s = k s"
| "lit_ci (p # ps) k s = alt_lits (fold_orbit p) (lit_ci ps k) s"

text \<open>\<^verbatim>\<open>x*\<close> and \<^verbatim>\<open>x+\<close> (greedy) and \<^verbatim>\<open>x*?\<close> (lazy) for a character class \<open>x\<close>.\<close>

fun greedy_star :: "(char \<Rightarrow> bool) \<Rightarrow> (string \<Rightarrow> 'r option) \<Rightarrow> string \<Rightarrow> 'r option" where
  "greedy_star p k [] = k []"
| "greedy_star p k (c # cs) =
     (if p c
      then (case greedy_star p k cs of Some r \<Rightarrow> Some r | None \<Rightarrow> k (c # cs))
      else k (c # cs))"

fun greedy_plus :: "(char \<Rightarrow> bool) \<Rightarrow> (string \<Rightarrow> 'r option) \<Rightarrow> string \<Rightarrow> 'r option" where
  "greedy_plus p k [] = None"
| "greedy_plus p k (c # cs) = (if p c then greedy_star p k cs else None)"

fun lazy_star :: "(char \<Rightarrow> bool) \<Rightarrow> (string \<Rightarrow> 'r option) \<Rightarrow> string \<Rightarrow> 'r option" where
  "lazy_star p k [] = k []"
| "lazy_star p k (c # cs) =
     (case k (c # cs) of
        Some r \<Rightarrow> Some r
      | None \<Rightarrow> (if p c then lazy_star p k cs else None))"

text \<open>A capturing group \<^verbatim>\<open>(m)\<close>: the continuation also receives the text \<open>m\<close> consumed,
  that is the part of the input before the rest.\<close>

definition capture ::
  "((string \<Rightarrow> 'r option) \<Rightarrow> string \<Rightarrow> 'r option) \<Rightarrow> (string \<Rightarrow> string \<Rightarrow> 'r option) \<Rightarrow>
   string \<Rightarrow> 'r option" where
  "capture m k s = m (\<lambda>rest. k (take (length s - length rest) s) rest) s"

text \<open>
  The pattern of \<^verbatim>\<open>Parse\<close>,
  \<^verbatim>\<open>(?is)^\s*select\s+(.*?)\s+from\s+([^\s;]+)\<close>.  It is anchored at the start of the
  text, so it is tried there only.  The result is the pair of the two submatches;
  \<^verbatim>\<open>FindStringSubmatch\<close> returns \<^verbatim>\<open>nil\<close> when there is no match and three strings
  otherwise.
\<close>

definition select_re :: "string \<Rightarrow> (string \<times> string) option" where
  "select_re =
     greedy_star re_space (lit_ci ''select'' (greedy_plus re_space
       (capture (lazy_star re_any) (\<lambda>cols.
          greedy_plus re_space (lit_ci ''from'' (greedy_plus re_space
            (capture (greedy_plus re_table_char) (\<lambda>tbl rest. Some (cols, tbl)))))))))"

text \<open>
  The pattern of block comments, \<^verbatim>\<open>/\*.*?\*/\<close>, tried at the start of \<open>s\<close>: the text
  after the match.  Without the flag \<^verbatim>\<open>s\<close> the dot does not match a newline.
\<close>

definition block_comment_re :: "string \<Rightarrow> string option" where
  "block_comment_re = lit ''/*'' (lazy_star re_dot (lit ''*/'' Some))"

subsection \<open>The shape the pattern of \<^verbatim>\<open>Parse\<close> describes\<close>

text \<open>
  What the pattern says, read as a description of texts rather than as a search: optional
  white space, \<^verbatim>\<open>select\<close> in any case, white space, the column-list region, white space,
  \<^verbatim>\<open>from\<close> in any case, white space, a table token of characters that are neither white
  space nor \<^verbatim>\<open>;\<close>, and anything after it.  \<open>ci_variants w\<close> are the spellings of the
  word \<open>w\<close> in any case.
\<close>

fun ci_variants :: "string \<Rightarrow> string set" where
  "ci_variants [] = {[]}"
| "ci_variants (p # ps) = {w @ v | w v. w \<in> set (fold_orbit p) \<and> v \<in> ci_variants ps}"

definition select_from_shape :: "string \<Rightarrow> bool" where
  "select_from_shape s \<longleftrightarrow>
     (\<exists>ws1 kw1 ws2 cols ws3 kw2 ws4 tbl rest.
        s = ws1 @ kw1 @ ws2 @ cols @ ws3 @ kw2 @ ws4 @ tbl @ rest \<and>
        list_all re_space ws1 \<and> kw1 \<in> ci_variants ''select'' \<and>
        ws2 \<noteq> [] \<and> list_all re_space ws2 \<and>
        ws3 \<noteq> [] \<and> list_all re_space ws3 \<and> kw2 \<in> ci_variants ''from'' \<and>
        ws4 \<noteq> [] \<and> list_all re_space ws4 \<and>
        tbl \<noteq> [] \<and> list_all re_table_char tbl)"


section \<open>The statement parser (\<^verbatim>\<open>parse.go\<close>)\<close>

subsection \<open>\<^verbatim>\<open>stripComments\<close>\<close>

lemma lit_rest_length: "lit p k s = Some r \<Longrightarrow> \<exists>t. k t = Some r \<and> length t + length p = length s"
  by (induction p k s rule: lit.induct) (auto split: if_splits)

lemma lazy_star_rest_length:
  "lazy_star p k s = Some r \<Longrightarrow> \<exists>t. k t = Some r \<and> length t \<le> length s"
  by (induction p k s rule: lazy_star.induct) (fastforce split: option.splits if_splits)+

lemma block_comment_re_shorter:
  assumes "block_comment_re s = Some r"
  shows "length r < length s"
proof -
  from assms obtain t where t: "lazy_star re_dot (lit ''*/'' Some) t = Some r"
    and lt: "length t + length ''/*'' = length s"
    unfolding block_comment_re_def by (blast dest: lit_rest_length)
  from t obtain u where u: "lit ''*/'' Some u = Some r" and lu: "length u \<le> length t"
    by (blast dest: lazy_star_rest_length)
  from u obtain v where "Some v = Some r" and "length v + length ''*/'' = length u"
    by (metis lit_rest_length)
  with lu lt show ?thesis by simp
qed

text \<open>
  \<^verbatim>\<open>reMultiLine.ReplaceAllString(stmt, "")\<close>: the text is read from the left; where the
  pattern matches, the match is dropped and reading goes on after it; elsewhere the byte is
  kept.
\<close>

function remove_block_comments :: "string \<Rightarrow> string" where
  "remove_block_comments [] = []"
| "remove_block_comments (c # cs) =
     (case block_comment_re (c # cs) of
        Some rest \<Rightarrow> remove_block_comments rest
      | None \<Rightarrow> c # remove_block_comments cs)"
  by pat_completeness auto
termination
proof (relation "measure length")
  show "wf (measure length)" by simp
next
  fix c :: char and cs rest :: string
  assume "block_comment_re (c # cs) = Some rest"
  then have "length rest < length (c # cs)" by (rule block_comment_re_shorter)
  then show "(rest, c # cs) \<in> measure length" by simp
next
  fix c :: char and cs :: string
  show "(cs, c # cs) \<in> measure length" by simp
qed

text \<open>
  The inner loop of \<^verbatim>\<open>stripComments\<close>, \<^verbatim>\<open>for i := 0; i < len(line)-1; i++\<close>:
  the first argument is \<^verbatim>\<open>line[i:]\<close>, the second is \<open>i\<close>, then the three quote flags.
  The result is \<^verbatim>\<open>commentIdx\<close>, \<open>None\<close> for \<open>-1\<close>.  The loop reads \<^verbatim>\<open>line[i]\<close> and
  \<^verbatim>\<open>line[i+1]\<close>, so it stops when fewer than two bytes are left.
\<close>

fun comment_index :: "string \<Rightarrow> nat \<Rightarrow> bool \<Rightarrow> bool \<Rightarrow> bool \<Rightarrow> nat option" where
  "comment_index (char # nextChar # cs) i inSingleQuote inDoubleQuote inBacktick =
     (if char = ch_squote \<and> \<not> inDoubleQuote \<and> \<not> inBacktick
        then comment_index (nextChar # cs) (i + 1) (\<not> inSingleQuote) inDoubleQuote inBacktick
      else if char = ch_dquote \<and> \<not> inSingleQuote \<and> \<not> inBacktick
        then comment_index (nextChar # cs) (i + 1) inSingleQuote (\<not> inDoubleQuote) inBacktick
      else if char = ch_backtick \<and> \<not> inSingleQuote \<and> \<not> inDoubleQuote
        then comment_index (nextChar # cs) (i + 1) inSingleQuote inDoubleQuote (\<not> inBacktick)
      else if char = CHR ''-'' \<and> nextChar = CHR ''-'' \<and>
              \<not> inSingleQuote \<and> \<not> inDoubleQuote \<and> \<not> inBacktick
        then Some i
      else comment_index (nextChar # cs) (i + 1) inSingleQuote inDoubleQuote inBacktick)"
| "comment_index cs i inSingleQuote inDoubleQuote inBacktick = None"

definition strip_line_comment :: "string \<Rightarrow> string" where
  "strip_line_comment line =
     (case comment_index line 0 False False False of
        Some commentIdx \<Rightarrow> slice line 0 commentIdx
      | None \<Rightarrow> line)"

definition stripComments :: "string \<Rightarrow> string" where
  "stripComments stmt =
     join [ch_nl] (map strip_line_comment (split_on ch_nl (remove_block_comments stmt)))"

subsection \<open>\<^verbatim>\<open>unquote\<close>\<close>

definition unquote :: "string \<Rightarrow> string" where
  "unquote col =
     (if length col \<ge> 2 \<and>
         ((col ! 0 = ch_backtick \<and> col ! (length col - 1) = ch_backtick) \<or>
          (col ! 0 = ch_dquote \<and> col ! (length col - 1) = ch_dquote) \<or>
          (col ! 0 = ch_squote \<and> col ! (length col - 1) = ch_squote))
      then slice col 1 (length col - 1)
      else col)"

subsection \<open>\<^verbatim>\<open>Parse\<close>\<close>

text \<open>One round of the loop over \<^verbatim>\<open>strings.SplitSeq(matches[1], ",")\<close>.\<close>

definition add_column :: "string list \<Rightarrow> string \<Rightarrow> string list" where
  "add_column columns col =
     (let col = TrimSpace col;
          col = unquote col
      in if col = [] then columns else columns @ [col])"

definition Parse :: "string \<Rightarrow> string \<times> string list" where
  "Parse stmt =
     (let stmt = stripComments stmt in
      case select_re stmt of
        None \<Rightarrow> ([], [])
      | Some (m1, m2) \<Rightarrow>
          (let columns = foldl add_column [] (split_on CHR '','' m1);
               table = TrimSpace m2;
               table = TrimSuffix table '';''
           in (table, columns)))"

subsection \<open>What a column token becomes, said without the code\<close>

text \<open>
  The white-space runes of \<^verbatim>\<open>unicode.IsSpace\<close>, each in its UTF-8 encoding: the six
  ASCII ones, U+0085, U+00A0, U+1680, U+2000 to U+200A, U+2028, U+2029, U+202F, U+205F and
  U+3000.
\<close>

definition space_runes :: "string list" where
  "space_runes =
     [[CHR 0x09], [CHR 0x0A], [CHR 0x0B], [CHR 0x0C], [CHR 0x0D], [CHR 0x20],
      [CHR 0xC2, CHR 0x85], [CHR 0xC2, CHR 0xA0],
      [CHR 0xE1, CHR 0x9A, CHR 0x80],
      [CHR 0xE2, CHR 0x80, CHR 0x80], [CHR 0xE2, CHR 0x80, CHR 0x81],
      [CHR 0xE2, CHR 0x80, CHR 0x82], [CHR 0xE2, CHR 0x80, CHR 0x83],
      [CHR 0xE2, CHR 0x80, CHR 0x84], [CHR 0xE2, CHR 0x80, CHR 0x85],
      [CHR 0xE2, CHR 0x80, CHR 0x86], [CHR 0xE2, CHR 0x80, CHR 0x87],
      [CHR 0xE2, CHR 0x80, CHR 0x88], [CHR 0xE2, CHR 0x80, CHR 0x89],
      [CHR 0xE2, CHR 0x80, CHR 0x8A],
      [CHR 0xE2, CHR 0x80, CHR 0xA8], [CHR 0xE2, CHR 0x80, CHR 0xA9],
      [CHR 0xE2, CHR 0x80, CHR 0xAF],
      [CHR 0xE2, CHR 0x81, CHR 0x9F],
      [CHR 0xE3, CHR 0x80, CHR 0x80]]"

text \<open>
  A text is white when it is a sequence of white-space runes, and trimmed when it neither
  starts nor ends with one.  \<open>trim_of tok core\<close>: \<open>core\<close> is what is left of \<open>tok\<close> once
  the white space around it is taken away.
\<close>

definition white :: "string \<Rightarrow> bool" where
  "white s \<longleftrightarrow> (\<exists>ws. set ws \<subseteq> set space_runes \<and> s = concat ws)"

definition trimmed :: "string \<Rightarrow> bool" where
  "trimmed s \<longleftrightarrow>
     (\<forall>w \<in> set space_runes. take (length w) s \<noteq> w \<and> drop (length s - length w) s \<noteq> w)"

definition trim_of :: "string \<Rightarrow> string \<Rightarrow> bool" where
  "trim_of tok core \<longleftrightarrow>
     (\<exists>lead trail. tok = lead @ core @ trail \<and> white lead \<and> white trail \<and> trimmed core)"

text \<open>
  \<open>unquoted core col\<close>: \<open>col\<close> is \<open>core\<close> without its enclosing quotes when \<open>core\<close>
  begins and ends with the same one of backtick, double quote and single quote, and \<open>core\<close>
  itself otherwise.
\<close>

definition quote :: "char \<Rightarrow> bool" where
  "quote q \<longleftrightarrow> q = ch_backtick \<or> q = ch_dquote \<or> q = ch_squote"

definition unquoted :: "string \<Rightarrow> string \<Rightarrow> bool" where
  "unquoted core col \<longleftrightarrow>
     (\<exists>q mid. quote q \<and> core = q # mid @ [q] \<and> col = mid) \<or>
     ((\<nexists>q mid. quote q \<and> core = q # mid @ [q]) \<and> col = core)"

text \<open>
  \<open>column_spec region toks cores cols\<close>: \<open>toks\<close> are the pieces of \<open>region\<close> between its
  commas, \<open>cores\<close> the pieces trimmed, \<open>cols\<close> the trimmed pieces unquoted, each list in
  the order of the region.
\<close>

definition column_spec :: "string \<Rightarrow> string list \<Rightarrow> string list \<Rightarrow> string list \<Rightarrow> bool" where
  "column_spec region toks cores cols \<longleftrightarrow>
     region = join '','' toks \<and> toks \<noteq> [] \<and> (\<forall>tok \<in> set toks. CHR '','' \<notin> set tok) \<and>
     list_all2 trim_of toks cores \<and> list_all2 unquoted cores cols"

text \<open>The bytes a white-space rune can start with; no later byte of such a rune is one of
  them.\<close>

definition is_start :: "char \<Rightarrow> bool" where
  "is_start c \<longleftrightarrow>
     ascii_space c \<or> c = CHR 0xC2 \<or> c = CHR 0xE1 \<or> c = CHR 0xE2 \<or> c = CHR 0xE3"

section \<open>The query interceptor\<close>

subsection \<open>The execution handle (\<^verbatim>\<open>DBTX\<close>)\<close>

text \<open>
  The types of \<^verbatim>\<open>database/sql\<close> are opaque here.  \<^verbatim>\<open>*sql.Stmt\<close>, \<^verbatim>\<open>*sql.Rows\<close> and
  \<^verbatim>\<open>*sql.Row\<close> are pointers and \<^verbatim>\<open>sql.Result\<close> is an interface, so each result may be
  \<^verbatim>\<open>nil\<close>: \<open>None\<close>.  An \<^verbatim>\<open>error\<close> is \<^verbatim>\<open>nil\<close> (\<open>None\<close>) or a value of
  \<open>go_error\<close>, of which \<^verbatim>\<open>sql.ErrNoRows\<close> is the one the code names.
\<close>

typedecl sql_Result
typedecl sql_Stmt
typedecl sql_Rows
typedecl sql_Row

datatype go_error = ErrNoRows | Error string

text \<open>
  The interface \<^verbatim>\<open>DBTX\<close>.  \<open>'c\<close> is \<^verbatim>\<open>context.Context\<close>, \<open>'a\<close> the type of the
  arguments (\<^verbatim>\<open>interface{}\<close>), \<open>'s\<close> the state of whatever implements the handle (the
  connection and the database behind it): a method takes the state and returns the new one
  beside its results.
\<close>

record ('c, 'a, 's) DBTX =
  ExecContext :: "'c \<Rightarrow> string \<Rightarrow> 'a list \<Rightarrow> 's \<Rightarrow> (sql_Result option \<times> go_error option) \<times> 's"
  PrepareContext :: "'c \<Rightarrow> string \<Rightarrow> 's \<Rightarrow> (sql_Stmt option \<times> go_error option) \<times> 's"
  QueryContext :: "'c \<Rightarrow> string \<Rightarrow> 'a list \<Rightarrow> 's \<Rightarrow> (sql_Rows option \<times> go_error option) \<times> 's"
  QueryRowContext :: "'c \<Rightarrow> string \<Rightarrow> 'a list \<Rightarrow> 's \<Rightarrow> sql_Row option \<times> 's"

text \<open>
  The query builder \<^verbatim>\<open>sq.SelectBuilder\<close> belongs to the library squirrel, not to this
  repository: its values are of a type \<open>'sb\<close>, and the functions below take as parameters the
  library operations they call.  \<^verbatim>\<open>ToSql\<close> returns the statement text and the arguments, or
  an error (\<open>Inl\<close>).  \<^verbatim>\<open>MustSql\<close> is \<^verbatim>\<open>ToSql\<close> that panics with the error instead of
  returning it; a function that calls it returns \<open>Inl\<close> of the error for the panic.
\<close>

type_synonym ('sb, 'a) to_sql = "'sb \<Rightarrow> go_error + string \<times> 'a list"

subsection \<open>\<^verbatim>\<open>selecter\<close>: every call overridden\<close>

record ('c, 'a, 's, 'sb) selecter =
  raw :: "('c, 'a, 's) DBTX"
  sb :: 'sb


definition selecter_ExecContext ::
  "('sb, 'a) to_sql \<Rightarrow> ('c, 'a, 's, 'sb) selecter \<Rightarrow> 'c \<Rightarrow> string \<Rightarrow> 'a list \<Rightarrow> 's \<Rightarrow>
   go_error + (sql_Result option \<times> go_error option) \<times> 's" where
  "selecter_ExecContext MustSql r ctx query args st =
     (case MustSql (selecter.sb r) of
        Inl err \<Rightarrow> Inl err
      | Inr (query, args) \<Rightarrow> Inr (ExecContext (selecter.raw r) ctx query args st))"



text \<open>\<^verbatim>\<open>Select\<close> beside \<^verbatim>\<open>selecter\<close>: the wrapper that overrides every call.\<close>

definition selecter_Select :: "('c, 'a, 's) DBTX \<Rightarrow> 'sb \<Rightarrow> ('c, 'a, 's, 'sb) selecter" where
  "selecter_Select raw' sb' = \<lparr>selecter.raw = raw', selecter.sb = sb'\<rparr>"

subsection \<open>\<^verbatim>\<open>selector\<close>: queries overridden, behind an optional guard\<close>

record ('c, 'a, 's, 'sb) selector =
  raw :: "('c, 'a, 's) DBTX"
  expectedQuery :: string
  sb :: 'sb

definition selector_PrepareContext ::
  "('c, 'a, 's, 'sb) selector \<Rightarrow> 'c \<Rightarrow> string \<Rightarrow> 's \<Rightarrow>
   (sql_Stmt option \<times> go_error option) \<times> 's" where
  "selector_PrepareContext r ctx query st = PrepareContext (raw r) ctx query st"

definition selector_ExecContext ::
  "('c, 'a, 's, 'sb) selector \<Rightarrow> 'c \<Rightarrow> string \<Rightarrow> 'a list \<Rightarrow> 's \<Rightarrow>
   (sql_Result option \<times> go_error option) \<times> 's" where
  "selector_ExecContext r ctx query args st = ExecContext (raw r) ctx query args st"

definition selector_QueryContext ::
  "('sb, 'a) to_sql \<Rightarrow> ('c, 'a, 's, 'sb) selector \<Rightarrow> 'c \<Rightarrow> string \<Rightarrow> 'a list \<Rightarrow> 's \<Rightarrow>
   (sql_Rows option \<times> go_error option) \<times> 's" where
  "selector_QueryContext ToSql r ctx query args st =
     (if expectedQuery r \<noteq> [] \<and> query \<noteq> expectedQuery r
      then QueryContext (raw r) ctx query args st
      else (case ToSql (sb r) of
              Inl err \<Rightarrow> ((None, Some err), st)
            | Inr (overriddenQuery, overriddenArgs) \<Rightarrow>
                QueryContext (raw r) ctx overriddenQuery overriddenArgs st))"

definition selector_QueryRowContext ::
  "('sb, 'a) to_sql \<Rightarrow> ('c, 'a, 's, 'sb) selector \<Rightarrow> 'c \<Rightarrow> string \<Rightarrow> 'a list \<Rightarrow> 's \<Rightarrow>
   sql_Row option \<times> 's" where
  "selector_QueryRowContext ToSql r ctx query args st =
     (if expectedQuery r \<noteq> [] \<and> query \<noteq> expectedQuery r
      then QueryRowContext (raw r) ctx query args st
      else (case ToSql (sb r) of
              Inl err \<Rightarrow> QueryRowContext (raw r) ctx query args st
            | Inr (overriddenQuery, overriddenArgs) \<Rightarrow>
                QueryRowContext (raw r) ctx overriddenQuery overriddenArgs st))"

text \<open>A \<^verbatim>\<open>*selector\<close> seen through the interface \<^verbatim>\<open>DBTX\<close>.\<close>

definition selector_DBTX ::
  "('sb, 'a) to_sql \<Rightarrow> ('c, 'a, 's, 'sb) selector \<Rightarrow> ('c, 'a, 's) DBTX" where
  "selector_DBTX ToSql r =
     \<lparr>ExecContext = selector_ExecContext r,
      PrepareContext = selector_PrepareContext r,
      QueryContext = selector_QueryContext ToSql r,
      QueryRowContext = selector_QueryRowContext ToSql r\<rparr>"

subsection \<open>\<^verbatim>\<open>db.go\<close>\<close>

definition SelectForQuery ::
  "('c, 'a, 's) DBTX \<Rightarrow> string \<Rightarrow> 'sb \<Rightarrow> ('c, 'a, 's, 'sb) selector" where
  "SelectForQuery raw' expectedQuery' sb' =
     \<lparr>raw = raw', expectedQuery = expectedQuery', sb = sb'\<rparr>"

definition Select :: "('c, 'a, 's) DBTX \<Rightarrow> 'sb \<Rightarrow> ('c, 'a, 's, 'sb) selector" where
  "Select raw' sb' = SelectForQuery raw' [] sb'"

subsection \<open>\<^verbatim>\<open>SelectBuilderFromStmt\<close>\<close>

text \<open>\<open>sq_Select\<close> and \<open>sq_From\<close> are squirrel's \<^verbatim>\<open>Select(columns...)\<close> and
  \<^verbatim>\<open>SelectBuilder.From(table)\<close>.\<close>

definition SelectBuilderFromStmt ::
  "(string list \<Rightarrow> 'sb) \<Rightarrow> ('sb \<Rightarrow> string \<Rightarrow> 'sb) \<Rightarrow> string \<Rightarrow> 'sb" where
  "SelectBuilderFromStmt sq_Select sq_From stmt =
     (case Parse stmt of (table, columns) \<Rightarrow> sq_From (sq_Select columns) table)"

section \<open>The per-query entry points (package \<^verbatim>\<open>tutorial\<close>)\<close>

text \<open>
  The package keeps one base skeleton per query in a package-level variable.  The entry points
  run in a state made of these variables and of the state behind the handle, and return the
  state they leave.
\<close>

record 'sb package_vars =
  listUsersBuilder :: 'sb
  listUserPostsBuilder :: 'sb

text \<open>
  The initial values of the variables.  \<open>listUsers\<close> and \<open>listUserPosts\<close> are the statement
  constants of the generated layer; \<open>sq_Where\<close> and \<open>sq_Limit\<close> are squirrel's
  \<^verbatim>\<open>Where\<close> and \<^verbatim>\<open>Limit\<close>, \<open>not_deleted\<close> is the predicate
  \<^verbatim>\<open>sq.Eq{"deleted_at": nil}\<close>.
\<close>

definition package_init ::
  "(string list \<Rightarrow> 'sb) \<Rightarrow> ('sb \<Rightarrow> string \<Rightarrow> 'sb) \<Rightarrow> ('sb \<Rightarrow> 'w \<Rightarrow> 'sb) \<Rightarrow> ('sb \<Rightarrow> nat \<Rightarrow> 'sb) \<Rightarrow>
   'w \<Rightarrow> string \<Rightarrow> string \<Rightarrow> 'sb package_vars" where
  "package_init sq_Select sq_From sq_Where sq_Limit not_deleted listUsers listUserPosts =
     \<lparr>listUsersBuilder =
        sq_Limit (sq_Where (SelectBuilderFromStmt sq_Select sq_From listUsers) not_deleted) 500,
      listUserPostsBuilder =
        sq_Limit (sq_Where (SelectBuilderFromStmt sq_Select sq_From listUserPosts) not_deleted)
          500\<rparr>"

text \<open>
  The generated layer is not part of the sources: \<open>Queries_ListUsers\<close> stands for
  \<^verbatim>\<open>New(db).ListUsers(ctx)\<close>, the decode routine run against a handle, and
  \<open>Queries_ListUserPosts\<close> likewise; \<open>zero\<close> is the zero value \<^verbatim>\<open>User{}\<close> or
  \<^verbatim>\<open>UserPost{}\<close>.  A customization function may be \<^verbatim>\<open>nil\<close>: \<open>None\<close>.
\<close>

type_synonym ('c, 'a, 's, 'u) list_query =
  "('c, 'a, 's) DBTX \<Rightarrow> 'c \<Rightarrow> 's \<Rightarrow> ('u list \<times> go_error option) \<times> 's"

definition ListUsers ::
  "('sb, 'a) to_sql \<Rightarrow> ('c, 'a, 's, 'u) list_query \<Rightarrow>
   'c \<Rightarrow> ('c, 'a, 's) DBTX \<Rightarrow> ('sb \<Rightarrow> 'sb) option \<Rightarrow> 'sb package_vars \<Rightarrow> 's \<Rightarrow>
   ('u list \<times> go_error option) \<times> 'sb package_vars \<times> 's" where
  "ListUsers ToSql Queries_ListUsers ctx db fn vars st =
     (let sb' = listUsersBuilder vars;
          sb' = (case fn of Some f \<Rightarrow> f sb' | None \<Rightarrow> sb');
          db = selector_DBTX ToSql (Select db sb')
      in case Queries_ListUsers db ctx st of (result, st') \<Rightarrow> (result, vars, st'))"

definition FindUser ::
  "('sb, 'a) to_sql \<Rightarrow> ('c, 'a, 's, 'u) list_query \<Rightarrow> ('sb \<Rightarrow> nat \<Rightarrow> 'sb) \<Rightarrow> 'u \<Rightarrow>
   'c \<Rightarrow> ('c, 'a, 's) DBTX \<Rightarrow> ('sb \<Rightarrow> 'sb) option \<Rightarrow> 'sb package_vars \<Rightarrow> 's \<Rightarrow>
   ('u \<times> go_error option) \<times> 'sb package_vars \<times> 's" where
  "FindUser ToSql Queries_ListUsers sq_Limit zero ctx db fn vars st =
     (case ListUsers ToSql Queries_ListUsers ctx db
             (Some (\<lambda>sb'. sq_Limit (case fn of Some f \<Rightarrow> f sb' | None \<Rightarrow> sb') 1)) vars st of
        ((users, err), vars', st') \<Rightarrow>
          (case err of
             Some e \<Rightarrow> ((zero, Some e), vars', st')
           | None \<Rightarrow>
               (case users of
                  [] \<Rightarrow> ((zero, Some ErrNoRows), vars', st')
                | u # _ \<Rightarrow> ((u, None), vars', st'))))"

definition ListUserPosts ::
  "('sb, 'a) to_sql \<Rightarrow> ('c, 'a, 's, 'u) list_query \<Rightarrow>
   'c \<Rightarrow> ('c, 'a, 's) DBTX \<Rightarrow> ('sb \<Rightarrow> 'sb) option \<Rightarrow> 'sb package_vars \<Rightarrow> 's \<Rightarrow>
   ('u list \<times> go_error option) \<times> 'sb package_vars \<times> 's" where
  "ListUserPosts ToSql Queries_ListUserPosts ctx db fn vars st =
     (let sb' = listUserPostsBuilder vars;
          sb' = (case fn of Some f \<Rightarrow> f sb' | None \<Rightarrow> sb');
          db = selector_DBTX ToSql (Select db sb')
      in case Queries_ListUserPosts db ctx st of (result, st') \<Rightarrow> (result, vars, st'))"

definition FindUserPost ::
  "('sb, 'a) to_sql \<Rightarrow> ('c, 'a, 's, 'u) list_query \<Rightarrow> ('sb \<Rightarrow> nat \<Rightarrow> 'sb) \<Rightarrow> 'u \<Rightarrow>
   'c \<Rightarrow> ('c, 'a, 's) DBTX \<Rightarrow> ('sb \<Rightarrow> 'sb) option \<Rightarrow> 'sb package_vars \<Rightarrow> 's \<Rightarrow>
   ('u \<times> go_error option) \<times> 'sb package_vars \<times> 's" where
  "FindUserPost ToSql Queries_ListUserPosts sq_Limit zero ctx db fn vars st =
     (case ListUserPosts ToSql Queries_ListUserPosts ctx db
             (Some (\<lambda>sb'. sq_Limit (case fn of Some f \<Rightarrow> f sb' | None \<Rightarrow> sb') 1)) vars st of
        ((userPosts, err), vars', st') \<Rightarrow>
          (case err of
             Some e \<Rightarrow> ((zero, Some e), vars', st')
           | None \<Rightarrow>
               (case userPosts of
                  [] \<Rightarrow> ((zero, Some ErrNoRows), vars', st')
                | u # _ \<Rightarrow> ((u, None), vars', st'))))"

section \<open>Sample collaborators for concrete runs\<close>

text \<open>\<^verbatim>\<open>recordDB\<close> of the tests: it keeps the statement and the arguments of the last query
  call and returns \<^verbatim>\<open>nil\<close> from every method.\<close>

record 'a recordDB =
  lastQuery :: string
  lastArgs :: "'a list"

definition recordDB_DBTX :: "('c, 'a, 'a recordDB) DBTX" where
  "recordDB_DBTX =
     \<lparr>ExecContext = (\<lambda>ctx query args r. ((None, None), r)),
      PrepareContext = (\<lambda>ctx query r. ((None, None), r)),
      QueryContext = (\<lambda>ctx query args r. ((None, None), r\<lparr>lastQuery := query, lastArgs := args\<rparr>)),
      QueryRowContext = (\<lambda>ctx query args r. (None, r))\<rparr>"

text \<open>
  A handle that logs every call it receives and returns \<^verbatim>\<open>nil\<close> results; its state is the
  log.
\<close>

datatype 'a call =
    ExecCall string "'a list"
  | PrepareCall string
  | QueryCall string "'a list"
  | QueryRowCall string "'a list"

definition logDB :: "(unit, 'a, 'a call list) DBTX" where
  "logDB =
     \<lparr>ExecContext = (\<lambda>ctx query args st. ((None, None), st @ [ExecCall query args])),
      PrepareContext = (\<lambda>ctx query st. ((None, None), st @ [PrepareCall query])),
      QueryContext = (\<lambda>ctx query args st. ((None, None), st @ [QueryCall query args])),
      QueryRowContext = (\<lambda>ctx query args st. (None, st @ [QueryRowCall query args]))\<rparr>"




definition sample_Limit :: "string list \<times> string \<Rightarrow> nat \<Rightarrow> string list \<times> string" where
  "sample_Limit b n = b"

definition sample_ToSql :: "(string list \<times> string, nat) to_sql" where
  "sample_ToSql b =
     (if fst b = [] then Inl (Error ''select statements must have at least one result column'')
      else Inr (''SELECT '' @ join '', '' (fst b) @ '' FROM '' @ snd b, []))"

text \<open>A decode routine in the place of the generated \<^verbatim>\<open>ListUsers\<close>: it issues the one
  query and decodes no row.\<close>

definition sample_ListUsers :: "(unit, nat, nat call list, nat) list_query" where
  "sample_ListUsers db ctx st =
     (case QueryContext db ctx ''SELECT id FROM users'' [] st of
        ((rows, err), st') \<Rightarrow> (([], err), st'))"

section \<open>Properties of the patterns\<close>

text \<open>
  Each construct, when it succeeds, has split the text into the part it consumed and the rest
  its continuation accepted; and it succeeds whenever the text can be split so.
\<close>

lemma lit_Some_iff: "lit p k s = Some r \<longleftrightarrow> (\<exists>t. s = p @ t \<and> k t = Some r)"
  by (induction p k s rule: lit.induct) auto

lemma lit_None_iff: "lit p k s = None \<longleftrightarrow> (\<forall>t. s = p @ t \<longrightarrow> k t = None)"
  by (induction p k s rule: lit.induct) auto

lemma alt_lits_Some:
  "alt_lits ws k s = Some r \<Longrightarrow> \<exists>w t. w \<in> set ws \<and> s = w @ t \<and> k t = Some r"
  by (induction ws) (auto simp: lit_Some_iff split: option.splits)

lemma alt_lits_complete:
  "w \<in> set ws \<Longrightarrow> k t \<noteq> None \<Longrightarrow> alt_lits ws k (w @ t) \<noteq> None"
  by (induction ws) (auto simp: lit_None_iff split: option.splits)

lemma lit_ci_Some:
  "lit_ci p k s = Some r \<Longrightarrow> \<exists>kw t. kw \<in> ci_variants p \<and> s = kw @ t \<and> k t = Some r"
proof (induction p arbitrary: s)
  case Nil
  then show ?case by simp
next
  case (Cons a p)
  from Cons.prems obtain w t where w: "w \<in> set (fold_orbit a)" and s: "s = w @ t"
    and rest: "lit_ci p k t = Some r"
    by (auto dest: alt_lits_Some)
  from Cons.IH [OF rest] obtain kw u where "kw \<in> ci_variants p" "t = kw @ u" "k u = Some r"
    by blast
  with w s have "w @ kw \<in> ci_variants (a # p) \<and> s = (w @ kw) @ u \<and> k u = Some r"
    by auto
  then show ?case by blast
qed

lemma lit_ci_complete:
  "kw \<in> ci_variants p \<Longrightarrow> k t \<noteq> None \<Longrightarrow> lit_ci p k (kw @ t) \<noteq> None"
proof (induction p arbitrary: kw)
  case Nil
  then show ?case by simp
next
  case (Cons a p)
  from Cons.prems(1) obtain w v where w: "w \<in> set (fold_orbit a)" and v: "v \<in> ci_variants p"
    and kw: "kw = w @ v"
    by auto
  from Cons.IH [OF v Cons.prems(2)] have "lit_ci p k (v @ t) \<noteq> None" .
  with w have "alt_lits (fold_orbit a) (lit_ci p k) (w @ (v @ t)) \<noteq> None"
    by (rule alt_lits_complete)
  with kw show ?case by simp
qed

lemma greedy_star_Some:
  "greedy_star p k s = Some r \<Longrightarrow> \<exists>pre t. s = pre @ t \<and> list_all p pre \<and> k t = Some r"
proof (induction p k s rule: greedy_star.induct)
  case (1 p k)
  then show ?case by simp
next
  case (2 p k c cs)
  show ?case
  proof (cases "p c \<and> greedy_star p k cs \<noteq> None")
    case True
    with "2.prems" have "greedy_star p k cs = Some r" by (auto split: option.splits)
    with True "2.IH" obtain pre t where "cs = pre @ t" "list_all p pre" "k t = Some r"
      by blast
    with True have "c # cs = (c # pre) @ t \<and> list_all p (c # pre) \<and> k t = Some r" by simp
    then show ?thesis by blast
  next
    case False
    with "2.prems" have "k (c # cs) = Some r" by (auto split: option.splits if_splits)
    then have "c # cs = [] @ (c # cs) \<and> list_all p [] \<and> k (c # cs) = Some r" by simp
    then show ?thesis by blast
  qed
qed

lemma greedy_star_complete:
  "list_all p pre \<Longrightarrow> k t \<noteq> None \<Longrightarrow> greedy_star p k (pre @ t) \<noteq> None"
proof (induction pre)
  case Nil
  then show ?case by (cases t) (auto split: option.splits)
next
  case (Cons a pre)
  then show ?case by (auto split: option.splits)
qed

lemma greedy_plus_Some:
  "greedy_plus p k s = Some r \<Longrightarrow>
   \<exists>pre t. s = pre @ t \<and> pre \<noteq> [] \<and> list_all p pre \<and> k t = Some r"
proof (cases s)
  case Nil
  assume "greedy_plus p k s = Some r"
  with Nil show ?thesis by simp
next
  case (Cons c cs)
  assume "greedy_plus p k s = Some r"
  with Cons have pc: "p c" and "greedy_star p k cs = Some r" by (auto split: if_splits)
  then obtain pre t where "cs = pre @ t" "list_all p pre" "k t = Some r"
    by (blast dest: greedy_star_Some)
  with Cons pc have "s = (c # pre) @ t \<and> c # pre \<noteq> [] \<and> list_all p (c # pre) \<and> k t = Some r"
    by simp
  then show ?thesis by blast
qed

lemma greedy_plus_complete:
  "list_all p pre \<Longrightarrow> pre \<noteq> [] \<Longrightarrow> k t \<noteq> None \<Longrightarrow> greedy_plus p k (pre @ t) \<noteq> None"
  by (cases pre) (auto simp: greedy_star_complete)

lemma lazy_star_Some:
  "lazy_star p k s = Some r \<Longrightarrow> \<exists>pre t. s = pre @ t \<and> list_all p pre \<and> k t = Some r"
proof (induction p k s rule: lazy_star.induct)
  case (1 p k)
  then show ?case by simp
next
  case (2 p k c cs)
  show ?case
  proof (cases "k (c # cs)")
    case (Some a)
    with "2.prems" have "c # cs = [] @ (c # cs) \<and> list_all p [] \<and> k (c # cs) = Some r" by simp
    then show ?thesis by blast
  next
    case None
    with "2.prems" have pc: "p c" and "lazy_star p k cs = Some r" by (auto split: if_splits)
    with None "2.IH" obtain pre t where "cs = pre @ t" "list_all p pre" "k t = Some r"
      by blast
    with pc have "c # cs = (c # pre) @ t \<and> list_all p (c # pre) \<and> k t = Some r" by simp
    then show ?thesis by blast
  qed
qed

lemma lazy_star_complete:
  "list_all p pre \<Longrightarrow> k t \<noteq> None \<Longrightarrow> lazy_star p k (pre @ t) \<noteq> None"
proof (induction pre)
  case Nil
  then show ?case by (cases t) (auto split: option.splits)
next
  case (Cons a pre)
  then show ?case by (auto split: option.splits)
qed


lemma capture_Some:
  assumes m: "\<And>k' s'. m k' s' = Some r \<Longrightarrow> \<exists>pre t. s' = pre @ t \<and> P pre \<and> k' t = Some r"
    and c: "capture m k s = Some r"
  shows "\<exists>pre t. s = pre @ t \<and> P pre \<and> k pre t = Some r"
proof -
  from c have "m (\<lambda>rest. k (take (length s - length rest) s) rest) s = Some r"
    by (simp add: capture_def)
  from m [OF this] obtain pre t where s: "s = pre @ t" and p: "P pre"
    and k: "k (take (length s - length t) s) t = Some r"
    by blast
  from s have "take (length s - length t) s = pre" by simp
  with s p k show ?thesis by auto
qed

lemma capture_complete:
  assumes m: "\<And>k'. k' t \<noteq> None \<Longrightarrow> m k' (pre @ t) \<noteq> None"
    and k: "k pre t \<noteq> None"
  shows "capture m k (pre @ t) \<noteq> None"
proof -
  let ?k = "\<lambda>rest. k (take (length (pre @ t) - length rest) (pre @ t)) rest"
  have "?k t \<noteq> None"
    using k by simp
  with m [of ?k] show ?thesis by (simp add: capture_def)
qed

lemma select_re_Some:
  assumes "select_re s = Some (cols, tbl)"
  shows "\<exists>ws1 kw1 ws2 ws3 kw2 ws4 rest.
        s = ws1 @ kw1 @ ws2 @ cols @ ws3 @ kw2 @ ws4 @ tbl @ rest \<and>
        list_all re_space ws1 \<and> kw1 \<in> ci_variants ''select'' \<and>
        ws2 \<noteq> [] \<and> list_all re_space ws2 \<and>
        ws3 \<noteq> [] \<and> list_all re_space ws3 \<and> kw2 \<in> ci_variants ''from'' \<and>
        ws4 \<noteq> [] \<and> list_all re_space ws4 \<and>
        tbl \<noteq> [] \<and> list_all re_table_char tbl"
proof -
  let ?table = "\<lambda>c. capture (greedy_plus re_table_char) (\<lambda>tbl rest. Some (c, tbl))"
  let ?tail = "\<lambda>c. greedy_plus re_space (lit_ci ''from'' (greedy_plus re_space (?table c)))"
  let ?cols = "capture (lazy_star re_any) ?tail"
  from assms obtain ws1 t1 where s1: "s = ws1 @ t1" and ws1: "list_all re_space ws1"
    and r1: "lit_ci ''select'' (greedy_plus re_space ?cols) t1 = Some (cols, tbl)"
    unfolding select_re_def by (blast dest: greedy_star_Some)
  from r1 obtain kw1 t2 where s2: "t1 = kw1 @ t2" and kw1: "kw1 \<in> ci_variants ''select''"
    and r2: "greedy_plus re_space ?cols t2 = Some (cols, tbl)"
    by (blast dest: lit_ci_Some)
  from r2 obtain ws2 t3 where s3: "t2 = ws2 @ t3" and ws2: "ws2 \<noteq> []" "list_all re_space ws2"
    and r3: "?cols t3 = Some (cols, tbl)"
    by (blast dest: greedy_plus_Some)
  from capture_Some [where m = "lazy_star re_any" and P = "list_all re_any", OF _ r3]
  obtain m1 t4 where s4: "t3 = m1 @ t4" and r4: "?tail m1 t4 = Some (cols, tbl)"
    by (blast dest: lazy_star_Some)
  from r4 obtain ws3 t5 where s5: "t4 = ws3 @ t5" and ws3: "ws3 \<noteq> []" "list_all re_space ws3"
    and r5: "lit_ci ''from'' (greedy_plus re_space (?table m1)) t5 = Some (cols, tbl)"
    by (blast dest: greedy_plus_Some)
  from r5 obtain kw2 t6 where s6: "t5 = kw2 @ t6" and kw2: "kw2 \<in> ci_variants ''from''"
    and r6: "greedy_plus re_space (?table m1) t6 = Some (cols, tbl)"
    by (blast dest: lit_ci_Some)
  from r6 obtain ws4 t7 where s7: "t6 = ws4 @ t7" and ws4: "ws4 \<noteq> []" "list_all re_space ws4"
    and r7: "?table m1 t7 = Some (cols, tbl)"
    by (blast dest: greedy_plus_Some)
  from capture_Some [where m = "greedy_plus re_table_char"
      and P = "\<lambda>pre. pre \<noteq> [] \<and> list_all re_table_char pre", OF _ r7]
  obtain m2 rest where s8: "t7 = m2 @ rest" and m2: "m2 \<noteq> []" "list_all re_table_char m2"
    and r8: "Some (m1, m2) = Some (cols, tbl)"
    by (blast dest: greedy_plus_Some)
  from r8 have "m1 = cols" "m2 = tbl" by simp_all
  with s1 s2 s3 s4 s5 s6 s7 s8 ws1 kw1 ws2 ws3 kw2 ws4 m2
  have "s = ws1 @ kw1 @ ws2 @ cols @ ws3 @ kw2 @ ws4 @ tbl @ rest \<and>
        list_all re_space ws1 \<and> kw1 \<in> ci_variants ''select'' \<and>
        ws2 \<noteq> [] \<and> list_all re_space ws2 \<and>
        ws3 \<noteq> [] \<and> list_all re_space ws3 \<and> kw2 \<in> ci_variants ''from'' \<and>
        ws4 \<noteq> [] \<and> list_all re_space ws4 \<and>
        tbl \<noteq> [] \<and> list_all re_table_char tbl"
    by simp
  then show ?thesis by blast
qed

lemma select_re_complete:
  assumes "select_from_shape s"
  shows "select_re s \<noteq> None"
proof -
  from assms obtain ws1 kw1 ws2 cols ws3 kw2 ws4 tbl rest where
    s: "s = ws1 @ kw1 @ ws2 @ cols @ ws3 @ kw2 @ ws4 @ tbl @ rest"
    and ws1: "list_all re_space ws1" and kw1: "kw1 \<in> ci_variants ''select''"
    and ws2: "ws2 \<noteq> []" "list_all re_space ws2"
    and ws3: "ws3 \<noteq> []" "list_all re_space ws3" and kw2: "kw2 \<in> ci_variants ''from''"
    and ws4: "ws4 \<noteq> []" "list_all re_space ws4"
    and tbl: "tbl \<noteq> []" "list_all re_table_char tbl"
    unfolding select_from_shape_def by blast
  let ?table = "\<lambda>c. capture (greedy_plus re_table_char) (\<lambda>tbl rest. Some (c, tbl))"
  let ?tail = "\<lambda>c. greedy_plus re_space (lit_ci ''from'' (greedy_plus re_space (?table c)))"
  let ?cols = "capture (lazy_star re_any) ?tail"
  have "?table cols (tbl @ rest) \<noteq> None"
    by (rule capture_complete) (simp_all add: greedy_plus_complete tbl)
  then have "greedy_plus re_space (?table cols) (ws4 @ tbl @ rest) \<noteq> None"
    by (simp add: greedy_plus_complete ws4)
  then have "lit_ci ''from'' (greedy_plus re_space (?table cols)) (kw2 @ ws4 @ tbl @ rest) \<noteq> None"
    by (rule lit_ci_complete [OF kw2])
  then have "?tail cols (ws3 @ kw2 @ ws4 @ tbl @ rest) \<noteq> None"
    by (simp add: greedy_plus_complete ws3)
  then have "?cols (cols @ ws3 @ kw2 @ ws4 @ tbl @ rest) \<noteq> None"
    by (intro capture_complete lazy_star_complete) (simp_all add: list_all_iff re_any_def)
  then have "greedy_plus re_space ?cols (ws2 @ cols @ ws3 @ kw2 @ ws4 @ tbl @ rest) \<noteq> None"
    by (simp add: greedy_plus_complete ws2)
  then have "lit_ci ''select'' (greedy_plus re_space ?cols)
      (kw1 @ ws2 @ cols @ ws3 @ kw2 @ ws4 @ tbl @ rest) \<noteq> None"
    by (rule lit_ci_complete [OF kw1])
  then have "greedy_star re_space (lit_ci ''select'' (greedy_plus re_space ?cols))
      (ws1 @ kw1 @ ws2 @ cols @ ws3 @ kw2 @ ws4 @ tbl @ rest) \<noteq> None"
    by (simp add: greedy_star_complete ws1)
  then show ?thesis by (simp add: select_re_def s)
qed

lemma select_re_matches_iff: "select_re s \<noteq> None \<longleftrightarrow> select_from_shape s"
proof
  assume "select_re s \<noteq> None"
  then obtain cols tbl where "select_re s = Some (cols, tbl)" by auto
  from select_re_Some [OF this] show "select_from_shape s"
    unfolding select_from_shape_def by blast
next
  assume "select_from_shape s"
  then show "select_re s \<noteq> None" by (rule select_re_complete)
qed

section \<open>Properties of the parser\<close>

subsection \<open>The cases of \<^verbatim>\<open>TestParse\<close>\<close>

lemma TestParse_lowercase_simple:
  "Parse ''select a,b,c FROM test;'' = (''test'', [''a'', ''b'', ''c''])"
  by code_simp

lemma TestParse_mixed_case_multiline:
  "Parse ([ch_nl] @ [ch_tab, ch_tab, ch_tab] @ '' SELECT'' @
          [ch_nl] @ [ch_tab, ch_tab, ch_tab, ch_tab] @ ''id ,'' @
          [ch_nl] @ [ch_tab, ch_tab, ch_tab, ch_tab] @ '' name'' @
          [ch_nl] @ [ch_tab, ch_tab, ch_tab, ch_tab] @ ''FROM'' @
          [ch_nl] @ [ch_tab, ch_tab, ch_tab, ch_tab] @ '' users_table'' @
          [ch_nl] @ [ch_tab, ch_tab, ch_tab, ch_tab] @ '';'' @
          [ch_nl] @ [ch_tab, ch_tab, ch_tab]) =
     (''users_table'', [''id'', ''name''])"
  by code_simp

lemma TestParse_no_match:
  "Parse ''update table set a=1'' = ([], [])"
  by code_simp

lemma TestParse_leading_whitespace:
  "Parse (''  '' @ [ch_nl, ch_tab] @ ''select  col1 ,  col2  from  my_tab  '') =
     (''my_tab'', [''col1'', ''col2''])"
  by code_simp

lemma TestParse_quoted_column_names:
  "Parse (''SELECT `a`, '' @ [ch_dquote] @ ''b'' @ [ch_dquote] @ '', '' @
          [ch_squote] @ ''c'' @ [ch_squote] @ '' FROM t1;'') =
     (''t1'', [''a'', ''b'', ''c''])"
  by code_simp

lemma TestParse_sqlc_generated_query:
  "Parse (''-- name: ListUsers :many'' @ [ch_nl] @
          ''SELECT id, name, -- comment'' @ [ch_nl] @
          ''email, age, created_at, updated_at FROM users'' @ [ch_nl]) =
     (''users'', [''id'', ''name'', ''email'', ''age'', ''created_at'', ''updated_at''])"
  by code_simp

subsection \<open>What \<^verbatim>\<open>Parse\<close> returns\<close>

lemma foldl_add_column:
  "foldl add_column acc toks =
     acc @ filter (\<lambda>c. c \<noteq> []) (map (\<lambda>tok. unquote (TrimSpace tok)) toks)"
  by (induction toks arbitrary: acc) (simp_all add: add_column_def Let_def)

lemma set_TrimLeft: "set (TrimLeft s) \<subseteq> set s"
proof (induction s rule: TrimLeft.induct)
  case (1 s)
  show ?case
  proof (cases "leading_space s = 0")
    case True
    then show ?thesis by (simp add: TrimLeft.simps [of s])
  next
    case False
    with 1 have "set (TrimLeft (drop (leading_space s) s)) \<subseteq> set (drop (leading_space s) s)"
      by simp
    also have "\<dots> \<subseteq> set s" by (rule set_drop_subset)
    finally show ?thesis using False by (simp add: TrimLeft.simps [of s])
  qed
qed

lemma set_TrimRight: "set (TrimRight s) \<subseteq> set s"
proof (induction s rule: TrimRight.induct)
  case (1 s)
  show ?case
  proof (cases "trailing_space s = 0")
    case True
    then show ?thesis by (simp add: TrimRight.simps [of s])
  next
    case False
    with 1 have "set (TrimRight (take (length s - trailing_space s) s)) \<subseteq>
        set (take (length s - trailing_space s) s)"
      by simp
    also have "\<dots> \<subseteq> set s" by (rule set_take_subset)
    finally show ?thesis using False by (simp add: TrimRight.simps [of s])
  qed
qed

lemma set_TrimSpace: "set (TrimSpace s) \<subseteq> set s"
  unfolding TrimSpace_def using set_TrimRight set_TrimLeft by blast

lemma set_TrimSuffix: "set (TrimSuffix s suffix) \<subseteq> set s"
  by (simp add: TrimSuffix_def set_take_subset)

lemma Parse_no_match: "select_re (stripComments stmt) = None \<Longrightarrow> Parse stmt = ([], [])"
  by (simp add: Parse_def)

lemma Parse_match:
  "select_re (stripComments stmt) = Some (m1, m2) \<Longrightarrow>
   Parse stmt =
     (TrimSuffix (TrimSpace m2) '';'',
      filter (\<lambda>c. c \<noteq> []) (map (\<lambda>tok. unquote (TrimSpace tok)) (split_on CHR '','' m1)))"
  by (simp add: Parse_def foldl_add_column)

lemma TrimSuffix_absent: "last_char \<notin> set s \<Longrightarrow> TrimSuffix s [last_char] = s"
proof (cases "s = []")
  case True
  then show ?thesis by (simp add: TrimSuffix_def)
next
  case False
  assume "last_char \<notin> set s"
  with False have "last s \<noteq> last_char" using last_in_set by metis
  moreover from False have "drop (length s - 1) s = [last s]"
    by (metis append_butlast_last_id append_eq_conv_conj length_butlast)
  ultimately show ?thesis by (simp add: TrimSuffix_def)
qed

text \<open>
  Claim C5.  A statement that, once its comments are stripped, does not have the shape
  \<^verbatim>\<open>SELECT ... FROM ...\<close> of the pattern gives an empty table name and no columns.
  \<^verbatim>\<open>Parse\<close> has no error result and no panic on any input: the model is a total function
  into pairs.
\<close>

theorem Parse_no_shape:
  assumes "\<not> select_from_shape (stripComments stmt)"
  shows "Parse stmt = ([], [])"
proof -
  from assms have "select_re (stripComments stmt) = None"
    using select_re_matches_iff [of "stripComments stmt"] by blast
  then show ?thesis by (rule Parse_no_match)
qed

theorem Parse_no_shape_witness:
  "\<not> select_from_shape (stripComments ''update table set a=1'') \<and>
   Parse ''update table set a=1'' = ([], [])"
proof -
  have "select_re (stripComments ''update table set a=1'') = None"
    by code_simp
  then have no_shape: "\<not> select_from_shape (stripComments ''update table set a=1'')"
    using select_re_matches_iff [of "stripComments ''update table set a=1''"] by blast
  from no_shape Parse_no_shape [OF no_shape] show ?thesis by blast
qed

lemma unquote_wrapped:
  assumes "q = ch_backtick \<or> q = ch_dquote \<or> q = ch_squote"
  shows "unquote (q # mid @ [q]) = mid"
proof -
  let ?col = "q # mid @ [q]"
  have last: "?col ! (length ?col - 1) = q"
    by (simp add: nth_append)
  have first: "?col ! 0 = q" by simp
  have inner: "slice ?col 1 (length ?col - 1) = mid"
    by (simp add: slice_def)
  have "2 \<le> length ?col \<and>
      ((?col ! 0 = ch_backtick \<and> ?col ! (length ?col - 1) = ch_backtick) \<or>
       (?col ! 0 = ch_dquote \<and> ?col ! (length ?col - 1) = ch_dquote) \<or>
       (?col ! 0 = ch_squote \<and> ?col ! (length ?col - 1) = ch_squote))"
    unfolding first last using assms by simp
  then have "unquote ?col = slice ?col 1 (length ?col - 1)"
    unfolding unquote_def by (rule if_P)
  with inner show ?thesis by simp
qed


lemma first_last_split:
  assumes "2 \<le> length col" and "col ! 0 = q" and "col ! (length col - 1) = q"
  shows "\<exists>mid. col = q # mid @ [q]"
proof -
  from assms(1) obtain x xs where col: "col = x # xs"
    by (cases col) auto
  with assms(1) have xs: "xs \<noteq> []" by auto
  from col assms(2) have x: "x = q" by simp
  from xs have split: "xs = butlast xs @ [last xs]" by simp
  from col xs assms(3) have "last xs = q"
    by (simp add: last_conv_nth)
  with split x col have "col = q # butlast xs @ [q]" by simp
  then show ?thesis by blast
qed



lemma unquote_other:
  assumes "\<nexists>q mid. (q = ch_backtick \<or> q = ch_dquote \<or> q = ch_squote) \<and> col = q # mid @ [q]"
  shows "unquote col = col"
proof (cases "2 \<le> length col \<and>
      ((col ! 0 = ch_backtick \<and> col ! (length col - 1) = ch_backtick) \<or>
       (col ! 0 = ch_dquote \<and> col ! (length col - 1) = ch_dquote) \<or>
       (col ! 0 = ch_squote \<and> col ! (length col - 1) = ch_squote))")
  case True
  then obtain q where q: "q = ch_backtick \<or> q = ch_dquote \<or> q = ch_squote"
    and ends: "col ! 0 = q" "col ! (length col - 1) = q"
    by blast
  from True have "2 \<le> length col" by blast
  from first_last_split [OF this ends] obtain mid where "col = q # mid @ [q]" by blast
  with q assms show ?thesis by blast
next
  case False
  then show ?thesis unfolding unquote_def by (rule if_not_P)
qed

subsection \<open>Splitting, trimming and unquoting against their descriptions\<close>

lemma split_on_nonempty: "split_on sep s \<noteq> []"
  by (induction s) (auto split: list.splits)

lemma split_on_no_sep: "sep \<notin> set t \<Longrightarrow> split_on sep t = [t]"
  by (induction t) auto

lemma split_on_piece:
  "sep \<notin> set t \<Longrightarrow> split_on sep (t @ sep # r) = t # split_on sep r"
proof (induction t)
  case Nil
  then show ?case by simp
next
  case (Cons a t)
  then show ?case by (auto split: list.splits)
qed

lemma split_on_join:
  assumes "toks \<noteq> []" and "\<forall>tok \<in> set toks. sep \<notin> set tok"
  shows "split_on sep (join [sep] toks) = toks"
  using assms
proof (induction "[sep]" toks rule: join.induct)
  case 1
  then show ?case by simp
next
  case (2 x)
  then show ?case by (simp add: split_on_no_sep)
next
  case (3 x y ys)
  then show ?case by (simp add: split_on_piece)
qed

lemmas ch_defs = ch_tab_def ch_nl_def ch_vt_def ch_ff_def ch_cr_def ch_sp_def

lemma ascii_space_rune: "ascii_space a \<Longrightarrow> [a] \<in> set space_runes"
  by (auto simp: space_runes_def ascii_space_def ch_defs)


lemma space_tail2_rune: "space_tail2 a b \<Longrightarrow> [a, b] \<in> set space_runes"
  by (auto simp: space_runes_def space_tail2_def)

lemma space_tail3_rune: "space_tail3 a b c \<Longrightarrow> [a, b, c] \<in> set space_runes"
  by (auto simp: space_runes_def space_tail3_def)

lemma space_tail2_not_ascii: "space_tail2 a b \<Longrightarrow> \<not> ascii_space a \<and> \<not> ascii_space b"
  by (auto simp: space_tail2_def ascii_space_def ch_defs)

lemma space_tail3_not_shorter:
  "space_tail3 a b c \<Longrightarrow>
   \<not> ascii_space a \<and> \<not> ascii_space c \<and> \<not> space_tail2 a b \<and> \<not> space_tail2 b c"
  by (auto simp: space_tail3_def space_tail2_def ascii_space_def ch_defs)



lemma leading_space_ascii: "ascii_space a \<Longrightarrow> leading_space (a # r) = 1"
  by (cases "a # r" rule: leading_space.cases) auto

lemma leading_space_two:
  "\<not> ascii_space a \<Longrightarrow> space_tail2 a b \<Longrightarrow> leading_space (a # b # r) = 2"
  by (cases "a # b # r" rule: leading_space.cases) auto

lemma leading_space_rune:
  assumes "w \<in> set space_runes"
  shows "leading_space (w @ r) = length w"
  using assms unfolding space_runes_def
  by (auto simp: leading_space_ascii leading_space_two
      ascii_space_def space_tail2_def space_tail3_def ch_defs)


lemma leading_space_is_rune:
  assumes "leading_space s \<noteq> 0"
  shows "take (leading_space s) s \<in> set space_runes"
  using assms
  by (cases s rule: leading_space.cases)
    (auto simp: ascii_space_rune space_tail2_rune space_tail3_rune split: if_splits)


lemma trailing_space_ascii: "ascii_space a \<Longrightarrow> trailing_space (s @ [a]) = 1"
  by (auto simp: trailing_space_def split: list.splits)

lemma trailing_space_two:
  "\<not> ascii_space b \<Longrightarrow> space_tail2 a b \<Longrightarrow> trailing_space (s @ [a, b]) = 2"
  by (auto simp: trailing_space_def split: list.splits)

lemma trailing_space_three:
  "\<not> ascii_space c \<Longrightarrow> \<not> space_tail2 b c \<Longrightarrow> space_tail3 a b c \<Longrightarrow>
   trailing_space (s @ [a, b, c]) = 3"
  by (auto simp: trailing_space_def split: list.splits)


lemma trailing_space_is_rune:
  assumes "trailing_space s \<noteq> 0"
  shows "drop (length s - trailing_space s) s \<in> set space_runes"
proof -
  have "rev (take (trailing_space s) (rev s)) \<in> set space_runes"
    using assms unfolding trailing_space_def
    by (auto simp: ascii_space_rune space_tail2_rune space_tail3_rune
        split: list.splits if_splits)
  then show ?thesis by (simp add: take_rev)
qed


lemma trailing_space_rune:
  assumes "w \<in> set space_runes"
  shows "trailing_space (s @ w) = length w"
  using assms unfolding space_runes_def
  by (auto simp: trailing_space_ascii trailing_space_two trailing_space_three
      ascii_space_def space_tail2_def space_tail3_def ch_defs)

lemma space_rune_nonempty: "w \<in> set space_runes \<Longrightarrow> w \<noteq> []"
  by (auto simp: space_runes_def)


lemma space_rune_cases:
  assumes "w \<in> set space_runes"
  shows "(\<exists>a. w = [a] \<and> ascii_space a) \<or>
         (\<exists>a b. w = [a, b] \<and> space_tail2 a b) \<or>
         (\<exists>a b c. w = [a, b, c] \<and> space_tail3 a b c)"
proof -
  from assms have len: "leading_space w = length w"
    using leading_space_rune [of w "[]"] by simp
  from assms have "w \<noteq> []" by (rule space_rune_nonempty)
  with len show ?thesis
    by (cases w rule: leading_space.cases) (auto split: if_splits)
qed

lemma space_tail2_start: "space_tail2 a b \<Longrightarrow> is_start a \<and> \<not> is_start b"
  by (auto simp: is_start_def space_tail2_def ascii_space_def ch_defs)

lemma space_tail3_start:
  "space_tail3 a b c \<Longrightarrow> is_start a \<and> \<not> is_start b \<and> \<not> is_start c"
  by (auto simp: is_start_def space_tail3_def ascii_space_def ch_defs)

lemma space_rune_starts:
  assumes "w \<in> set space_runes"
  shows "is_start (hd w)" and "0 < k \<Longrightarrow> k < length w \<Longrightarrow> \<not> is_start (w ! k)"
proof -
  from space_rune_cases [OF assms] show "is_start (hd w)"
    by (auto simp: is_start_def dest: space_tail2_start space_tail3_start)
  assume k: "0 < k" "k < length w"
  from space_rune_cases [OF assms] k show "\<not> is_start (w ! k)"
    by (auto simp: nth_Cons' less_Suc_eq dest!: space_tail2_start space_tail3_start)
qed


lemma TrimLeft_step: "leading_space s \<noteq> 0 \<Longrightarrow> TrimLeft s = TrimLeft (drop (leading_space s) s)"
  by (subst TrimLeft.simps) simp

lemma TrimLeft_stop: "leading_space s = 0 \<Longrightarrow> TrimLeft s = s"
  by (subst TrimLeft.simps) simp

lemma TrimRight_step:
  "trailing_space s \<noteq> 0 \<Longrightarrow> TrimRight s = TrimRight (take (length s - trailing_space s) s)"
  by (subst TrimRight.simps) simp

lemma TrimRight_stop: "trailing_space s = 0 \<Longrightarrow> TrimRight s = s"
  by (subst TrimRight.simps) simp

lemma TrimLeft_rune:
  assumes "w \<in> set space_runes"
  shows "TrimLeft (w @ rest) = TrimLeft rest"
proof -
  from assms have n: "leading_space (w @ rest) = length w" by (rule leading_space_rune)
  moreover from assms have "length w \<noteq> 0" using space_rune_nonempty by auto
  ultimately have "TrimLeft (w @ rest) = TrimLeft (drop (length w) (w @ rest))"
    using TrimLeft_step [of "w @ rest"] by simp
  then show ?thesis by simp
qed

lemma TrimRight_rune:
  assumes "w \<in> set space_runes"
  shows "TrimRight (s @ w) = TrimRight s"
proof -
  from assms have n: "trailing_space (s @ w) = length w" by (rule trailing_space_rune)
  moreover from assms have "length w \<noteq> 0" using space_rune_nonempty by auto
  ultimately have "TrimRight (s @ w) = TrimRight (take (length (s @ w) - length w) (s @ w))"
    using TrimRight_step [of "s @ w"] by simp
  then show ?thesis by simp
qed

lemma TrimLeft_runes:
  "set ws \<subseteq> set space_runes \<Longrightarrow> TrimLeft (concat ws @ rest) = TrimLeft rest"
  by (induction ws) (simp_all add: TrimLeft_rune)

lemma TrimRight_runes:
  "set ws \<subseteq> set space_runes \<Longrightarrow> TrimRight (s @ concat ws) = TrimRight s"
proof (induction ws rule: rev_induct)
  case Nil
  then show ?case by simp
next
  case (snoc w ws)
  then have w: "w \<in> set space_runes" and ws: "set ws \<subseteq> set space_runes" by simp_all
  have "TrimRight (s @ concat (ws @ [w])) = TrimRight ((s @ concat ws) @ w)" by simp
  also have "\<dots> = TrimRight (s @ concat ws)" using w by (rule TrimRight_rune)
  finally show ?case using snoc.IH [OF ws] by simp
qed

lemma trimmed_no_trailing:
  assumes "trimmed core"
  shows "trailing_space core = 0"
proof (rule ccontr)
  assume n: "trailing_space core \<noteq> 0"
  let ?w = "drop (length core - trailing_space core) core"
  from n have w: "?w \<in> set space_runes" by (rule trailing_space_is_rune)
  have "length ?w = trailing_space core"
    using trailing_space_le [of core] by simp
  then have "drop (length core - length ?w) core = ?w" by simp
  with w assms show False unfolding trimmed_def by blast
qed

lemma white_starts:
  assumes "white trail" and "trail \<noteq> []"
  shows "is_start (hd trail)"
proof -
  from assms(1) obtain ws where ws: "set ws \<subseteq> set space_runes" and t: "trail = concat ws"
    unfolding white_def by blast
  from t assms(2) obtain w ws' where "ws = w # ws'" by (cases ws) auto
  with ws t have w: "w \<in> set space_runes" and "trail = w @ concat ws'" by simp_all
  moreover from w have "w \<noteq> []" by (rule space_rune_nonempty)
  ultimately have "hd trail = hd w" by simp
  with w show ?thesis using space_rune_starts(1) by simp
qed

lemma trimmed_no_leading:
  assumes core: "trimmed core" "core \<noteq> []" and trail: "white trail"
  shows "leading_space (core @ trail) = 0"
proof (rule ccontr)
  let ?s = "core @ trail"
  let ?n = "leading_space ?s"
  let ?w = "take ?n ?s"
  assume n: "?n \<noteq> 0"
  then have w: "?w \<in> set space_runes" by (rule leading_space_is_rune)
  have len: "length ?w = ?n" using leading_space_le [of ?s] by simp
  show False
  proof (cases "?n \<le> length core")
    case True
    then have "take (length ?w) core = ?w" using len by simp
    with w core(1) show False unfolding trimmed_def by blast
  next
    case False
    have k: "0 < length core" "length core < length ?w"
      unfolding len using False core(2) by simp_all
    from False leading_space_le [of ?s] have nonempty: "trail \<noteq> []" by auto
    have lt: "length core < ?n" using False by simp
    have "?w ! length core = ?s ! length core" using lt by (rule nth_take)
    also have "\<dots> = hd trail" using nonempty by (simp add: nth_append hd_conv_nth)
    finally have "?w ! length core = hd trail" .
    moreover from space_rune_starts(2) [OF w k] have "\<not> is_start (?w ! length core)" .
    moreover from trail nonempty have "is_start (hd trail)" by (rule white_starts)
    ultimately show False by simp
  qed
qed

lemma TrimSpace_unique:
  assumes "trim_of tok core"
  shows "TrimSpace tok = core"
proof -
  from assms obtain lead trail where tok: "tok = lead @ core @ trail"
    and lead: "white lead" and trail: "white trail" and core: "trimmed core"
    unfolding trim_of_def by blast
  from lead obtain ws1 where ws1: "set ws1 \<subseteq> set space_runes" "lead = concat ws1"
    unfolding white_def by blast
  from trail obtain ws2 where ws2: "set ws2 \<subseteq> set space_runes" "trail = concat ws2"
    unfolding white_def by blast
  from tok ws1 have left: "TrimLeft tok = TrimLeft (core @ trail)"
    using TrimLeft_runes [OF ws1(1)] by simp
  have right: "TrimRight (core @ trail) = core"
  proof -
    from ws2 have "TrimRight (core @ trail) = TrimRight core"
      using TrimRight_runes [OF ws2(1)] by simp
    also from core have "\<dots> = core"
      by (simp add: TrimRight_stop trimmed_no_trailing)
    finally show ?thesis .
  qed
  show ?thesis
  proof (cases "core = []")
    case True
    with ws2 have "TrimLeft (core @ trail) = TrimLeft []"
      using TrimLeft_runes [OF ws2(1), of "[]"] by simp
    also have "\<dots> = []" by (simp add: TrimLeft_stop)
    finally have "TrimLeft tok = []" using left by simp
    with True show ?thesis by (simp add: TrimSpace_def TrimRight_stop trailing_space_def)
  next
    case False
    from trimmed_no_leading [OF core False trail]
    have "TrimLeft (core @ trail) = core @ trail"
      by (rule TrimLeft_stop)
    with left right show ?thesis by (simp add: TrimSpace_def)
  qed
qed


lemma unquoted_unquote:
  assumes "unquoted core col"
  shows "unquote core = col"
proof -
  from assms consider
      q mid where "quote q" "core = q # mid @ [q]" "col = mid"
    | "\<nexists>q mid. quote q \<and> core = q # mid @ [q]" "col = core"
    unfolding unquoted_def by blast
  then show ?thesis
  proof cases
    case 1
    then show ?thesis by (simp add: unquote_wrapped quote_def)
  next
    case 2
    then have "\<nexists>q mid. (q = ch_backtick \<or> q = ch_dquote \<or> q = ch_squote) \<and>
        core = q # mid @ [q]"
      by (simp add: quote_def)
    then have "unquote core = core" by (rule unquote_other)
    with 2 show ?thesis by simp
  qed
qed

lemma list_all2_map_eq:
  assumes "list_all2 R xs ys" and "\<And>x y. R x y \<Longrightarrow> f x = y"
  shows "map f xs = ys"
  using assms(1) by (induction rule: list_all2_induct) (simp_all add: assms(2))

lemma join_split_on:
  "join [sep] (split_on sep s) = s \<and> (\<forall>t \<in> set (split_on sep s). sep \<notin> set t)"
proof (induction s)
  case Nil
  then show ?case by simp
next
  case (Cons c s)
  obtain l ls where split: "split_on sep s = l # ls"
    using split_on_nonempty [of sep s] by (cases "split_on sep s") auto
  with Cons show ?case by (cases ls) auto
qed

lemma white_Nil: "white []"
  unfolding white_def by (rule exI [of _ "[]"]) simp

lemma white_Cons:
  assumes "w \<in> set space_runes" and "white s"
  shows "white (w @ s)"
proof -
  from assms(2) obtain ws where "set ws \<subseteq> set space_runes" "s = concat ws"
    unfolding white_def by blast
  with assms(1) have "set (w # ws) \<subseteq> set space_runes \<and> w @ s = concat (w # ws)" by simp
  then show ?thesis unfolding white_def by blast
qed

lemma white_snoc:
  assumes "white s" and "w \<in> set space_runes"
  shows "white (s @ w)"
proof -
  from assms(1) obtain ws where "set ws \<subseteq> set space_runes" "s = concat ws"
    unfolding white_def by blast
  with assms(2) have "set (ws @ [w]) \<subseteq> set space_runes \<and> s @ w = concat (ws @ [w])" by simp
  then show ?thesis unfolding white_def by blast
qed

lemma TrimLeft_decomp:
  "\<exists>lead. white lead \<and> s = lead @ TrimLeft s \<and> leading_space (TrimLeft s) = 0"
proof (induction s rule: TrimLeft.induct)
  case (1 s)
  show ?case
  proof (cases "leading_space s = 0")
    case True
    then have "white [] \<and> s = [] @ TrimLeft s \<and> leading_space (TrimLeft s) = 0"
      by (simp add: TrimLeft_stop white_Nil)
    then show ?thesis by blast
  next
    case False
    let ?n = "leading_space s"
    from 1 [OF False] obtain lead where lead: "white lead"
      "drop ?n s = lead @ TrimLeft (drop ?n s)" "leading_space (TrimLeft (drop ?n s)) = 0"
      by blast
    from False have w: "take ?n s \<in> set space_runes" by (rule leading_space_is_rune)
    from False have step: "TrimLeft s = TrimLeft (drop ?n s)" by (rule TrimLeft_step)
    have "s = take ?n s @ drop ?n s" by simp
    with lead(2) step have "s = (take ?n s @ lead) @ TrimLeft s" by simp
    moreover from w lead(1) have "white (take ?n s @ lead)" by (rule white_Cons)
    moreover from lead(3) step have "leading_space (TrimLeft s) = 0" by simp
    ultimately show ?thesis by blast
  qed
qed

lemma TrimRight_decomp:
  "\<exists>trail. white trail \<and> s = TrimRight s @ trail \<and> trailing_space (TrimRight s) = 0"
proof (induction s rule: TrimRight.induct)
  case (1 s)
  show ?case
  proof (cases "trailing_space s = 0")
    case True
    then have "white [] \<and> s = TrimRight s @ [] \<and> trailing_space (TrimRight s) = 0"
      by (simp add: TrimRight_stop white_Nil)
    then show ?thesis by blast
  next
    case False
    let ?n = "trailing_space s"
    let ?t = "take (length s - ?n) s"
    from 1 [OF False] obtain trail where trail: "white trail"
      "?t = TrimRight ?t @ trail" "trailing_space (TrimRight ?t) = 0"
      by blast
    from False have w: "drop (length s - ?n) s \<in> set space_runes"
      by (rule trailing_space_is_rune)
    from False have step: "TrimRight s = TrimRight ?t" by (rule TrimRight_step)
    have "s = ?t @ drop (length s - ?n) s" by simp
    with trail(2) step have "s = TrimRight s @ (trail @ drop (length s - ?n) s)"
      by (metis append.assoc)
    moreover from trail(1) w have "white (trail @ drop (length s - ?n) s)" by (rule white_snoc)
    moreover from trail(3) step have "trailing_space (TrimRight s) = 0" by simp
    ultimately show ?thesis by blast
  qed
qed

lemma leading_space_prefix: "leading_space (xs @ ys) = 0 \<Longrightarrow> leading_space xs = 0"
proof (cases xs rule: leading_space.cases)
  case 1
  then show ?thesis by simp
next
  case (2 a)
  assume "leading_space (xs @ ys) = 0"
  with 2 show ?thesis using leading_space_ascii [of a ys] by auto
next
  case (3 a b)
  assume "leading_space (xs @ ys) = 0"
  with 3 show ?thesis
    using leading_space_ascii [of a "b # ys"] leading_space_two [of a b ys] by auto
next
  case (4 a b c s)
  assume "leading_space (xs @ ys) = 0"
  with 4 show ?thesis by simp
qed

lemma trimmed_by_zero:
  assumes "leading_space core = 0" and "trailing_space core = 0"
  shows "trimmed core"
  unfolding trimmed_def
proof (intro ballI conjI notI)
  fix w
  assume w: "w \<in> set space_runes"
  {
    assume "take (length w) core = w"
    then have "core = w @ drop (length w) core" by (metis append_take_drop_id)
    then have "leading_space core = length w" using leading_space_rune [OF w] by metis
    with assms(1) w show False using space_rune_nonempty by auto
  next
    assume "drop (length core - length w) core = w"
    then have "core = take (length core - length w) core @ w" by (metis append_take_drop_id)
    then have "trailing_space core = length w" using trailing_space_rune [OF w] by metis
    with assms(2) w show False using space_rune_nonempty by auto
  }
qed

lemma trim_of_TrimSpace: "trim_of tok (TrimSpace tok)"
proof -
  obtain lead where lead: "white lead" "tok = lead @ TrimLeft tok"
    "leading_space (TrimLeft tok) = 0"
    using TrimLeft_decomp by blast
  obtain trail where trail: "white trail" "TrimLeft tok = TrimSpace tok @ trail"
    "trailing_space (TrimSpace tok) = 0"
    using TrimRight_decomp [of "TrimLeft tok"] unfolding TrimSpace_def by blast
  from lead(3) trail(2) have "leading_space (TrimSpace tok) = 0"
    using leading_space_prefix by metis
  from this trail(3) have "trimmed (TrimSpace tok)" by (rule trimmed_by_zero)
  moreover from lead(2) trail(2) have "tok = lead @ TrimSpace tok @ trail" by simp
  ultimately show ?thesis using lead(1) trail(1) unfolding trim_of_def by blast
qed

lemma unquoted_by_unquote: "unquoted core (unquote core)"
proof (cases "\<exists>q mid. quote q \<and> core = q # mid @ [q]")
  case True
  then obtain q mid where q: "quote q" and core: "core = q # mid @ [q]" by blast
  then have "unquote core = mid" by (simp add: unquote_wrapped quote_def)
  with q core show ?thesis unfolding unquoted_def by blast
next
  case False
  then have "\<nexists>q mid. (q = ch_backtick \<or> q = ch_dquote \<or> q = ch_squote) \<and>
      core = q # mid @ [q]"
    by (simp add: quote_def)
  then have "unquote core = core" by (rule unquote_other)
  with False show ?thesis unfolding unquoted_def by simp
qed

lemma list_all2_map_self: "(\<And>x. R x (f x)) \<Longrightarrow> list_all2 R xs (map f xs)"
  by (induction xs) simp_all

lemma column_spec_determines:
  assumes "select_re (stripComments stmt) = Some (m1, m2)"
    and "column_spec m1 toks cores cols"
  shows "snd (Parse stmt) = filter (\<lambda>col. col \<noteq> []) cols"
proof -
  from assms(2) have region: "m1 = join '','' toks" "toks \<noteq> []"
    "\<forall>tok \<in> set toks. CHR '','' \<notin> set tok"
    and cores: "list_all2 trim_of toks cores" and cols: "list_all2 unquoted cores cols"
    unfolding column_spec_def by simp_all
  from region have split: "split_on CHR '','' m1 = toks"
    by (simp add: split_on_join)
  from cores have trims: "map TrimSpace toks = cores"
    by (rule list_all2_map_eq) (rule TrimSpace_unique)
  from cols have unquotes: "map unquote cores = cols"
    by (rule list_all2_map_eq) (rule unquoted_unquote)
  have "map (\<lambda>tok. unquote (TrimSpace tok)) (split_on CHR '','' m1) =
      map unquote (map TrimSpace toks)"
    by (simp add: split)
  also have "\<dots> = cols" by (simp only: trims unquotes)
  finally show ?thesis using assms(1) by (simp add: Parse_match)
qed

lemma column_spec_exists:
  "\<exists>toks cores cols. column_spec region toks cores cols"
proof -
  let ?toks = "split_on CHR '','' region"
  let ?cores = "map TrimSpace ?toks"
  let ?cols = "map unquote ?cores"
  have "region = join '','' ?toks" and "\<forall>tok \<in> set ?toks. CHR '','' \<notin> set tok"
    using join_split_on [of "CHR '',''" region] by simp_all
  moreover have "?toks \<noteq> []" by (rule split_on_nonempty)
  moreover have "list_all2 trim_of ?toks ?cores"
    by (rule list_all2_map_self) (rule trim_of_TrimSpace)
  moreover have "list_all2 unquoted ?cores ?cols"
    by (rule list_all2_map_self) (rule unquoted_by_unquote)
  ultimately have "column_spec region ?toks ?cores ?cols"
    unfolding column_spec_def by simp
  then show ?thesis by blast
qed

text \<open>
  Claim C7, as the code has it.  For a statement the pattern matches, the column-list region
  always has a description by \<open>column_spec\<close>, and whatever lists describe it, \<^verbatim>\<open>Parse\<close>
  returns the unquoted tokens in the order of the region, leaving out those that are empty:
  a token of white space only, and a token that is nothing but a pair of quotes.
\<close>

theorem column_tokens:
  assumes "select_re (stripComments stmt) = Some (m1, m2)"
  shows "(\<exists>toks cores cols. column_spec m1 toks cores cols) \<and>
         (\<forall>toks cores cols. column_spec m1 toks cores cols \<longrightarrow>
            snd (Parse stmt) = filter (\<lambda>col. col \<noteq> []) cols)"
  using column_spec_exists [of m1] column_spec_determines [OF assms] by blast

lemma white_ascii: "list_all ascii_space s \<Longrightarrow> white s"
proof (induction s)
  case Nil
  show ?case by (rule white_Nil)
next
  case (Cons a s)
  then have "[a] \<in> set space_runes" and "white s" by (simp_all add: ascii_space_rune)
  then have "white ([a] @ s)" by (rule white_Cons)
  then show ?case by simp
qed

lemma trim_ofI:
  assumes "tok = lead @ core @ trail" and "list_all ascii_space lead"
    and "list_all ascii_space trail"
    and "leading_space core = 0" and "trailing_space core = 0"
  shows "trim_of tok core"
  unfolding trim_of_def
  using assms white_ascii trimmed_by_zero by blast

lemma unquoted_wrapped: "quote q \<Longrightarrow> unquoted (q # mid @ [q]) mid"
  unfolding unquoted_def by blast

theorem column_tokens_witness:
  "column_spec
     (''`a`,  '' @ [ch_dquote] @ ''b'' @ [ch_dquote] @ '' , '' @ [ch_squote, ch_squote] @ '', c'')
     [''`a`'', ''  '' @ [ch_dquote] @ ''b'' @ [ch_dquote] @ '' '', '' '' @ [ch_squote, ch_squote],
      '' c'']
     [''`a`'', [ch_dquote] @ ''b'' @ [ch_dquote], [ch_squote, ch_squote], ''c'']
     [''a'', ''b'', [], ''c''] \<and>
   snd (Parse (''SELECT `a`,  '' @ [ch_dquote] @ ''b'' @ [ch_dquote] @ '' , '' @
               [ch_squote, ch_squote] @ '', c FROM t1;'')) = [''a'', ''b'', ''c'']"
proof -
  let ?stmt = "''SELECT `a`,  '' @ [ch_dquote] @ ''b'' @ [ch_dquote] @ '' , '' @
               [ch_squote, ch_squote] @ '', c FROM t1;''"
  let ?m1 = "''`a`,  '' @ [ch_dquote] @ ''b'' @ [ch_dquote] @ '' , '' @
             [ch_squote, ch_squote] @ '', c''"
  let ?toks = "[''`a`'', ''  '' @ [ch_dquote] @ ''b'' @ [ch_dquote] @ '' '',
                '' '' @ [ch_squote, ch_squote], '' c'']"
  let ?cores = "[''`a`'', [ch_dquote] @ ''b'' @ [ch_dquote], [ch_squote, ch_squote], ''c'']"
  let ?cols = "[''a'', ''b'', [], ''c'']"
  have matched: "select_re (stripComments ?stmt) = Some (?m1, ''t1'')"
    by code_simp
  have region: "?m1 = join '','' ?toks" by simp
  have commas: "\<forall>tok \<in> set ?toks. CHR '','' \<notin> set tok"
    by (simp add: ch_dquote_def ch_squote_def)
  have t1: "trim_of ''`a`'' ''`a`''"
    by (rule trim_ofI [where lead = "[]" and trail = "[]"]) (simp, simp, simp, code_simp, code_simp)
  have t2: "trim_of (''  '' @ [ch_dquote] @ ''b'' @ [ch_dquote] @ '' '')
      ([ch_dquote] @ ''b'' @ [ch_dquote])"
    by (rule trim_ofI [where lead = "''  ''" and trail = "'' ''"])
      (simp, code_simp, code_simp, code_simp, code_simp)
  have t3: "trim_of ('' '' @ [ch_squote, ch_squote]) [ch_squote, ch_squote]"
    by (rule trim_ofI [where lead = "'' ''" and trail = "[]"])
      (simp, code_simp, simp, code_simp, code_simp)
  have t4: "trim_of '' c'' ''c''"
    by (rule trim_ofI [where lead = "'' ''" and trail = "[]"])
      (simp, code_simp, simp, code_simp, code_simp)
  have u1: "unquoted ''`a`'' ''a''"
    using unquoted_wrapped [of ch_backtick "''a''"] by (simp add: quote_def ch_backtick_def)
  have u2: "unquoted ([ch_dquote] @ ''b'' @ [ch_dquote]) ''b''"
    using unquoted_wrapped [of ch_dquote "''b''"] by (simp add: quote_def)
  have u3: "unquoted [ch_squote, ch_squote] []"
    using unquoted_wrapped [of ch_squote "[]"] by (simp add: quote_def)
  have u4: "unquoted ''c'' ''c''"
    unfolding unquoted_def by simp
  from region commas t1 t2 t3 t4 u1 u2 u3 u4
  have spec: "column_spec ?m1 ?toks ?cores ?cols"
    unfolding column_spec_def by simp
  from column_tokens [OF matched] spec
  have "snd (Parse ?stmt) = filter (\<lambda>col. col \<noteq> []) ?cols" by blast
  then have "snd (Parse ?stmt) = [''a'', ''b'', ''c'']" by simp
  from spec this show ?thesis by (rule conjI)
qed

text \<open>
  The claim as it is written fails for a token that is a bare pair of quotes: it is wrapped
  in matching single quotes, and \<^verbatim>\<open>Parse\<close> does not return it with the quotes stripped
  but drops it.
\<close>

theorem bare_quote_pair_dropped:
  "Parse (''select a, '' @ [ch_squote, ch_squote] @ '' from t'') = (''t'', [''a''])"
  by code_simp

lemma Parse_table_chars: "c \<in> set (fst (Parse stmt)) \<Longrightarrow> re_table_char c"
proof (cases "select_re (stripComments stmt)")
  case None
  assume "c \<in> set (fst (Parse stmt))"
  with None show ?thesis by (simp add: Parse_no_match)
next
  case (Some m)
  assume c: "c \<in> set (fst (Parse stmt))"
  obtain m1 m2 where m: "m = (m1, m2)" by (cases m)
  with Some have match: "select_re (stripComments stmt) = Some (m1, m2)" by simp
  from select_re_Some [OF match] have "list_all re_table_char m2" by blast
  moreover from c have "c \<in> set (TrimSuffix (TrimSpace m2) '';'')"
    by (simp add: Parse_match [OF match])
  then have "c \<in> set m2" using set_TrimSuffix set_TrimSpace by blast
  ultimately show ?thesis by (simp add: list_all_iff)
qed

lemma Parse_columns_nonempty: "col \<in> set (snd (Parse stmt)) \<Longrightarrow> col \<noteq> []"
proof (cases "select_re (stripComments stmt)")
  case None
  assume "col \<in> set (snd (Parse stmt))"
  with None show ?thesis by (simp add: Parse_no_match)
next
  case (Some m)
  assume c: "col \<in> set (snd (Parse stmt))"
  obtain m1 m2 where m: "m = (m1, m2)" by (cases m)
  with Some have match: "select_re (stripComments stmt) = Some (m1, m2)" by simp
  from c show ?thesis by (simp add: Parse_match [OF match])
qed

lemma Parse_empty_table:
  assumes "fst (Parse stmt) = []" and "snd (Parse stmt) \<noteq> []"
  shows "\<exists>m1 m2. select_re (stripComments stmt) = Some (m1, m2) \<and> m2 \<noteq> [] \<and>
           list_all re_table_char m2 \<and> TrimSpace m2 = []"
proof (cases "select_re (stripComments stmt)")
  case None
  with assms(2) show ?thesis by (simp add: Parse_no_match)
next
  case (Some m)
  obtain m1 m2 where m: "m = (m1, m2)" by (cases m)
  with Some have match: "select_re (stripComments stmt) = Some (m1, m2)" by simp
  from select_re_Some [OF match] have m2: "m2 \<noteq> []" "list_all re_table_char m2" by blast+
  then have "CHR '';'' \<notin> set m2" by (auto simp: list_all_iff re_table_char_def)
  then have "CHR '';'' \<notin> set (TrimSpace m2)" using set_TrimSpace by blast
  then have "TrimSuffix (TrimSpace m2) '';'' = TrimSpace m2" by (rule TrimSuffix_absent)
  with assms(1) have "TrimSpace m2 = []" by (simp add: Parse_match [OF match])
  with match m2 show ?thesis by blast
qed

text \<open>
  Claim C10, as the code has it.  For every input: the table name holds no character of the
  pattern's class \<^verbatim>\<open>\s\<close> (tab, newline, form feed, carriage return, space) and no
  \<^verbatim>\<open>;\<close>; every returned column is non-empty; when the pattern does not match, the table
  name is empty and there are no columns; and the table name is empty beside a non-empty column
  list only when the pattern matched a table token that \<^verbatim>\<open>strings.TrimSpace\<close> trims to
  nothing, that is a token of white space outside \<^verbatim>\<open>\s\<close> such as a vertical tab.
\<close>

theorem Parse_output_invariant:
  "(\<forall>c \<in> set (fst (Parse stmt)). \<not> re_space c \<and> c \<noteq> CHR '';'') \<and>
   (\<forall>col \<in> set (snd (Parse stmt)). col \<noteq> []) \<and>
   (select_re (stripComments stmt) = None \<longrightarrow> Parse stmt = ([], [])) \<and>
   (fst (Parse stmt) = [] \<and> snd (Parse stmt) \<noteq> [] \<longrightarrow>
      (\<exists>m1 m2. select_re (stripComments stmt) = Some (m1, m2) \<and> m2 \<noteq> [] \<and>
         list_all re_table_char m2 \<and> TrimSpace m2 = []))"
proof (intro conjI ballI impI)
  fix c
  assume "c \<in> set (fst (Parse stmt))"
  then have "re_table_char c" by (rule Parse_table_chars)
  then show "\<not> re_space c" and "c \<noteq> CHR '';''" by (simp_all add: re_table_char_def)
next
  fix col
  assume "col \<in> set (snd (Parse stmt))"
  then show "col \<noteq> []" by (rule Parse_columns_nonempty)
next
  assume "select_re (stripComments stmt) = None"
  then show "Parse stmt = ([], [])" by (rule Parse_no_match)
next
  assume "fst (Parse stmt) = [] \<and> snd (Parse stmt) \<noteq> []"
  then show "\<exists>m1 m2. select_re (stripComments stmt) = Some (m1, m2) \<and> m2 \<noteq> [] \<and>
         list_all re_table_char m2 \<and> TrimSpace m2 = []"
    using Parse_empty_table by blast
qed

theorem Parse_output_invariant_witness:
  "fst (Parse (''select a from '' @ [ch_vt])) = [] \<and>
   snd (Parse (''select a from '' @ [ch_vt])) = [''a''] \<and>
   (\<exists>m1 m2. select_re (stripComments (''select a from '' @ [ch_vt])) = Some (m1, m2) \<and>
      m2 \<noteq> [] \<and> list_all re_table_char m2 \<and> TrimSpace m2 = [])"
proof -
  have run: "Parse (''select a from '' @ [ch_vt]) = ([], [''a''])"
    by code_simp
  with Parse_output_invariant [of "''select a from '' @ [ch_vt]"] show ?thesis
    by simp
qed

text \<open>
  The invariant as it is claimed fails on two inputs: a table token that is one vertical tab
  gives an empty table name beside the column \<^verbatim>\<open>a\<close>, and a vertical tab inside the table
  token stays in the table name, although \<^verbatim>\<open>strings.TrimSpace\<close> counts it as white space.
\<close>

theorem Parse_empty_table_with_columns:
  "Parse (''select a from '' @ [ch_vt]) = ([], [''a'']) \<and>
   Parse (''select a from x'' @ [ch_vt] @ ''y'') = (''x'' @ [ch_vt] @ ''y'', [''a'']) \<and>
   ascii_space ch_vt"
  by code_simp

text \<open>
  Claim C1 at a statement with a block comment between two columns.  With the comment on one
  line the columns are \<^verbatim>\<open>a\<close> and \<^verbatim>\<open>b\<close>.  With the same comment running over two lines
  the pattern \<^verbatim>\<open>/\*.*?\*/\<close> does not match it, since its dot stops at a newline: the comment
  stays in the statement and comes back as part of the second column.
\<close>

theorem Parse_block_comment_across_lines:
  "Parse (''SELECT a, /* first second */ b FROM t'') = (''t'', [''a'', ''b'']) \<and>
   Parse (''SELECT a, /* first'' @ [ch_nl] @ ''second */ b FROM t'') =
     (''t'', [''a'', ''/* first'' @ [ch_nl] @ ''second */ b''])"
  by code_simp

section \<open>Properties of the interceptor\<close>

text \<open>
  \<^verbatim>\<open>TestSelectForQuery_OnlyOverridesMatchingQuery\<close>, for any skeleton that renders: the
  query \<^verbatim>\<open>other\<close> arrives with its three arguments, the query \<^verbatim>\<open>expected\<close> arrives as
  the rendered statement with the rendered arguments.
\<close>

lemma TestSelectForQuery_OnlyOverridesMatchingQuery:
  assumes "ToSql sb' = Inr (wantQuery, wantArgs)"
  shows "(case QueryContext (selector_DBTX ToSql (SelectForQuery recordDB_DBTX ''expected'' sb'))
                 ctx ''other'' [1, 2, 3] r of
            ((rows, err), r1) \<Rightarrow>
              err = None \<and> lastQuery r1 = ''other'' \<and> lastArgs r1 = [1, 2, 3] \<and>
              (case QueryContext
                      (selector_DBTX ToSql (SelectForQuery recordDB_DBTX ''expected'' sb'))
                      ctx ''expected'' [] r1 of
                 ((rows, err), r2) \<Rightarrow>
                   err = None \<and> lastQuery r2 = wantQuery \<and> lastArgs r2 = wantArgs))"
  using assms
  by (simp add: selector_DBTX_def selector_QueryContext_def SelectForQuery_def recordDB_DBTX_def)

text \<open>
  Claim C2.  A query or query-single-row call on an interceptor with a non-empty guard whose
  statement differs from the guard goes to the wrapped handle with the caller's statement and
  arguments, as they are.  When the guard is empty or equals the statement, the call goes to
  the wrapped handle with the statement and the arguments the skeleton renders to.
\<close>

theorem selector_query_delegation:
  "(g \<noteq> [] \<and> query \<noteq> g \<longrightarrow>
      selector_QueryContext ToSql (SelectForQuery raw' g sb') ctx query args st =
        QueryContext raw' ctx query args st \<and>
      selector_QueryRowContext ToSql (SelectForQuery raw' g sb') ctx query args st =
        QueryRowContext raw' ctx query args st) \<and>
   ((g = [] \<or> query = g) \<and> ToSql sb' = Inr (q', args') \<longrightarrow>
      selector_QueryContext ToSql (SelectForQuery raw' g sb') ctx query args st =
        QueryContext raw' ctx q' args' st \<and>
      selector_QueryRowContext ToSql (SelectForQuery raw' g sb') ctx query args st =
        QueryRowContext raw' ctx q' args' st)"
  by (auto simp: selector_QueryContext_def selector_QueryRowContext_def SelectForQuery_def)

theorem selector_query_delegation_witness:
  "selector_QueryContext sample_ToSql
     (SelectForQuery logDB ''expected'' ([''*''], ''users'')) () ''other'' [1, 2, 3] [] =
     ((None, None), [QueryCall ''other'' [1, 2, 3]]) \<and>
   selector_QueryRowContext sample_ToSql
     (SelectForQuery logDB ''expected'' ([''*''], ''users'')) () ''other'' [1, 2, 3] [] =
     (None, [QueryRowCall ''other'' [1, 2, 3]]) \<and>
   selector_QueryContext sample_ToSql
     (SelectForQuery logDB ''expected'' ([''*''], ''users'')) () ''expected'' [7] [] =
     ((None, None), [QueryCall ''SELECT * FROM users'' []]) \<and>
   selector_QueryRowContext sample_ToSql
     (SelectForQuery logDB ''expected'' ([''*''], ''users'')) () ''expected'' [7] [] =
     (None, [QueryRowCall ''SELECT * FROM users'' []])"
proof -
  have differs: "''expected'' \<noteq> [] \<and> ''other'' \<noteq> ''expected''" by simp
  have renders: "sample_ToSql ([''*''], ''users'') = Inr (''SELECT * FROM users'', [])"
    by (simp add: sample_ToSql_def)
  from differs
    selector_query_delegation [where g = "''expected''" and query = "''other''"
      and ToSql = sample_ToSql and raw' = logDB and sb' = "([''*''], ''users'')"
      and ctx = "()" and args = "[1, 2, 3]" and st = "[]"]
  have pass: "selector_QueryContext sample_ToSql
       (SelectForQuery logDB ''expected'' ([''*''], ''users'')) () ''other'' [1, 2, 3] [] =
       QueryContext logDB () ''other'' [1, 2, 3] [] \<and>
     selector_QueryRowContext sample_ToSql
       (SelectForQuery logDB ''expected'' ([''*''], ''users'')) () ''other'' [1, 2, 3] [] =
       QueryRowContext logDB () ''other'' [1, 2, 3] []"
    by blast
  from renders
    selector_query_delegation [where g = "''expected''" and query = "''expected''"
      and ToSql = sample_ToSql and raw' = logDB and sb' = "([''*''], ''users'')"
      and q' = "''SELECT * FROM users''" and args' = "[]"
      and ctx = "()" and args = "[7]" and st = "[]"]
  have over: "selector_QueryContext sample_ToSql
       (SelectForQuery logDB ''expected'' ([''*''], ''users'')) () ''expected'' [7] [] =
       QueryContext logDB () ''SELECT * FROM users'' [] [] \<and>
     selector_QueryRowContext sample_ToSql
       (SelectForQuery logDB ''expected'' ([''*''], ''users'')) () ''expected'' [7] [] =
       QueryRowContext logDB () ''SELECT * FROM users'' [] []"
    by blast
  from pass over show ?thesis by (simp add: logDB_def)
qed

text \<open>
  Claim C3.  When the skeleton does not render and the call reaches the interception branch
  (the guard is empty or equals the statement), a query call returns the rendering error and
  leaves the wrapped handle alone, while a query-single-row call goes to the wrapped handle
  with the caller's own statement and arguments.
\<close>

theorem selector_render_failure_asymmetry:
  assumes "ToSql (sb r) = Inl err"
    and "expectedQuery r = [] \<or> query = expectedQuery r"
  shows "selector_QueryContext ToSql r ctx query args st = ((None, Some err), st) \<and>
         selector_QueryRowContext ToSql r ctx query args st =
           QueryRowContext (raw r) ctx query args st"
  using assms by (auto simp: selector_QueryContext_def selector_QueryRowContext_def)

theorem selector_render_failure_asymmetry_witness:
  "selector_QueryContext sample_ToSql (Select logDB ([], [])) () ''SELECT id FROM users'' [4] [] =
     ((None, Some (Error ''select statements must have at least one result column'')), []) \<and>
   selector_QueryRowContext sample_ToSql (Select logDB ([], [])) () ''SELECT id FROM users'' [4] [] =
     (None, [QueryRowCall ''SELECT id FROM users'' [4]])"
proof -
  have fails: "sample_ToSql (sb (Select logDB ([], []))) =
      Inl (Error ''select statements must have at least one result column'')"
    by (simp add: sample_ToSql_def Select_def SelectForQuery_def)
  have reaches: "expectedQuery (Select logDB ([], [])) = [] \<or>
      ''SELECT id FROM users'' = expectedQuery (Select logDB ([], []))"
    by (simp add: Select_def SelectForQuery_def)
  from fails reaches
    selector_render_failure_asymmetry [where ToSql = sample_ToSql
      and r = "Select logDB ([], [])" and query = "''SELECT id FROM users''"
      and err = "Error ''select statements must have at least one result column''"
      and ctx = "()" and args = "[4]" and st = "[]"]
  show ?thesis by (simp add: logDB_def Select_def SelectForQuery_def)
qed

text \<open>
  Claim C6.  The wrapper that overrides every call (\<^verbatim>\<open>selecter\<close>) sends an exec call to
  the wrapped handle with the statement and the arguments the skeleton renders to; the guarded
  wrapper (\<^verbatim>\<open>selector\<close>) sends every exec call on as the caller made it, whatever the
  guard.
\<close>

theorem exec_override_and_passthrough:
  "(MustSql sb' = Inr (q', args') \<longrightarrow>
      selecter_ExecContext MustSql (selecter_Select raw' sb') ctx query args st =
        Inr (ExecContext raw' ctx q' args' st)) \<and>
   selector_ExecContext (SelectForQuery raw' g sb'') ctx query args st =
     ExecContext raw' ctx query args st"
  by (simp add: selecter_ExecContext_def selecter_Select_def selector_ExecContext_def
      SelectForQuery_def)

theorem exec_override_and_passthrough_witness:
  "selecter_ExecContext sample_ToSql (selecter_Select logDB ([''id''], ''users'')) ()
     ''DELETE FROM users'' [5] [] =
     Inr ((None, None), [ExecCall ''SELECT id FROM users'' []]) \<and>
   selector_ExecContext (SelectForQuery logDB ''DELETE FROM users'' ([''id''], ''users'')) ()
     ''DELETE FROM users'' [5 :: nat] [] =
     ((None, None), [ExecCall ''DELETE FROM users'' [5]])"
proof -
  have renders: "sample_ToSql ([''id''], ''users'') = Inr (''SELECT id FROM users'', [])"
    by (simp add: sample_ToSql_def)
  from renders
    exec_override_and_passthrough [where MustSql = sample_ToSql and sb' = "([''id''], ''users'')"
      and q' = "''SELECT id FROM users''" and args' = "[]" and raw' = logDB and ctx = "()"
      and query = "''DELETE FROM users''" and args = "[5]" and st = "[]"
      and g = "''DELETE FROM users''" and sb'' = "([''id''], ''users'')"]
  show ?thesis by (simp add: logDB_def)
qed

text \<open>
  Claim C8.  \<^verbatim>\<open>FindUser\<close> runs the list routine against the interceptor bound to the
  skeleton refined by the caller's function and capped at one row.  When that returns no row
  and no error, the caller gets \<^verbatim>\<open>sql.ErrNoRows\<close> beside the zero \<^verbatim>\<open>User\<close>.
\<close>

theorem FindUser_no_rows:
  assumes "Queries_ListUsers
             (selector_DBTX ToSql
                (Select db (sq_Limit (case fn of Some f \<Rightarrow> f (listUsersBuilder vars)
                                              | None \<Rightarrow> listUsersBuilder vars) 1)))
             ctx st = (([], None), st')"
  shows "FindUser ToSql Queries_ListUsers sq_Limit zero ctx db fn vars st =
           ((zero, Some ErrNoRows), vars, st')"
  using assms by (simp add: FindUser_def ListUsers_def Let_def)

theorem FindUser_no_rows_witness:
  "FindUser sample_ToSql sample_ListUsers sample_Limit 0 () logDB None
     \<lparr>listUsersBuilder = ([''id''], ''users''), listUserPostsBuilder = ([''id''], ''posts'')\<rparr> [] =
     ((0, Some ErrNoRows),
      \<lparr>listUsersBuilder = ([''id''], ''users''), listUserPostsBuilder = ([''id''], ''posts'')\<rparr>,
      [QueryCall ''SELECT id FROM users'' []])"
proof -
  let ?vars = "\<lparr>listUsersBuilder = ([''id''], ''users''),
                 listUserPostsBuilder = ([''id''], ''posts'')\<rparr>"
  have empty: "sample_ListUsers
      (selector_DBTX sample_ToSql
         (Select logDB (sample_Limit (case None of Some f \<Rightarrow> f (listUsersBuilder ?vars)
                                       | None \<Rightarrow> listUsersBuilder ?vars) 1)))
      () [] = (([], None), [QueryCall ''SELECT id FROM users'' []])"
    by (simp add: sample_ListUsers_def selector_DBTX_def selector_QueryContext_def Select_def
        SelectForQuery_def sample_ToSql_def sample_Limit_def logDB_def)
  from empty
    FindUser_no_rows [where Queries_ListUsers = sample_ListUsers and ToSql = sample_ToSql
      and db = logDB and sq_Limit = sample_Limit and fn = None
      and vars = ?vars and ctx = "()" and st = "[]"
      and st' = "[QueryCall ''SELECT id FROM users'' []]" and zero = 0]
  show ?thesis by blast
qed




end
